theory Spec2Isabelle
  imports Complex_Main "HOL-Library.AList" "HOL-Library.List_Lexorder" "HOL-Library.Char_ord"
begin

section \<open>Python values, dictionaries and exceptions\<close>

text \<open>
  Attribute values are dynamically typed in the source. A float is held by the rational
  it stands for, or is \<open>VNaN\<close> (infinities are left out); what double arithmetic rounds is
  said where it is used. A Python \<open>dict\<close> is an association list with distinct keys in
  insertion order; \<open>d[k] = v\<close> is \<open>AList.update k v d\<close> (an existing key keeps its
  position, a new one goes last) and \<open>del d[k]\<close> is \<open>AList.delete k d\<close>. A \<open>VList\<close> is
  a list, a tuple or an array. \<open>VMethod n\<close> is the bound method \<open>n\<close> of an image,
  \<open>VImageClass\<close> the class \<open>Image\<close>, and \<open>VObject\<close> an object of a library class that
  the development does not look into (a \<open>WCS\<close>, a \<open>Quantity\<close>, a \<open>datetime\<close>).
\<close>

datatype val =
    VNone
  | VBool bool
  | VInt int
  | VNum rat
  | VNaN
  | VStr string
  | VList "val list"
  | VDict "(string \<times> val) list"
  | VSource "rat \<times> rat" "(string \<times> val) list"
  | VMethod string
  | VImageClass
  | VObject string

type_synonym pydict = "(string \<times> val) list"

datatype error =
    ValueError string
  | AttributeError
  | TypeError
  | IndexError
  | KeyError string
  | SystemExit
  | BlockError string

text \<open>Truth value of an object in a condition (\<open>if not image.discard\<close>).\<close>

fun truthy :: "val \<Rightarrow> bool" where
  "truthy VNone = False"
| "truthy (VBool b) = b"
| "truthy (VInt n) = (n \<noteq> 0)"
| "truthy (VNum q) = (q \<noteq> 0)"
| "truthy VNaN = True"
| "truthy (VStr s) = (s \<noteq> [])"
| "truthy (VList xs) = (xs \<noteq> [])"
| "truthy (VDict kvs) = (kvs \<noteq> [])"
| "truthy (VSource c a) = True"
| "truthy (VMethod n) = True"
| "truthy VImageClass = True"
| "truthy (VObject n) = True"

text \<open>Sequencing of computations that may raise.\<close>

definition ebind :: "error + 'a \<Rightarrow> ('a \<Rightarrow> error + 'b) \<Rightarrow> error + 'b" where
  "ebind m f = (case m of Inl e \<Rightarrow> Inl e | Inr x \<Rightarrow> f x)"

text \<open>\<open>xs[j]\<close> for a Python integer index: a negative index counts from the end.\<close>

definition py_index :: "'a list \<Rightarrow> int \<Rightarrow> error + 'a" where
  "py_index xs j =
     (let n = int (length xs); j' = (if j < 0 then n + j else j)
      in if 0 \<le> j' \<and> j' < n then Inr (xs ! nat j') else Inl IndexError)"

text \<open>\<open>str(i)\<close> for a non-negative integer.\<close>

definition digit_char :: "nat \<Rightarrow> char" where
  "digit_char d = char_of (48 + d)"

fun str_nat :: "nat \<Rightarrow> string" where
  "str_nat n = (if n < 10 then [digit_char n] else str_nat (n div 10) @ [digit_char (n mod 10)])"

declare str_nat.simps [simp del]

text \<open>\<open>p in s\<close> for two strings: \<open>p\<close> occurs in \<open>s\<close>.\<close>

fun starts_with :: "string \<Rightarrow> string \<Rightarrow> bool" where
  "starts_with s [] = True"
| "starts_with [] (c # p) = False"
| "starts_with (x # s) (c # p) = (x = c \<and> starts_with s p)"

fun str_contains :: "string \<Rightarrow> string \<Rightarrow> bool" where
  "str_contains [] p = (p = [])"
| "str_contains (x # s) p = (starts_with (x # s) p \<or> str_contains s p)"

section \<open>The image container (prose/core/image.py)\<close>

text \<open>
  An \<open>Image\<close> object is its instance dictionary \<open>__dict__\<close>. After \<open>__init__\<close> it
  holds \<open>data\<close>, \<open>metadata\<close>, \<open>catalogs\<close>, \<open>_sources\<close>, \<open>discard\<close>, \<open>origin\<close> and
  \<open>computed\<close>, in this order. Containers are held by value.
\<close>

type_synonym image = pydict

text \<open>
  What numpy, astropy and dateutil do is not in the repository; it is a parameter.
  \<open>getter lib name d\<close> is what the getter of the property \<open>name\<close> returns or raises on
  the image \<open>d\<close>, for the properties whose getters call into these libraries (\<open>shape\<close>,
  \<open>ra\<close>, \<open>dec\<close>, \<open>exposure\<close>, \<open>pixel_scale\<close>, \<open>fov\<close>, \<open>date\<close>, \<open>night_date\<close>, \<open>wcs\<close>,
  \<open>plate_solved\<close>, \<open>skycoord\<close>). \<open>to_sources lib v\<close> is the \<open>Sources\<close> that the setter of
  \<open>sources\<close> stores for \<open>v\<close>: \<open>v\<close> itself when it is a \<open>Sources\<close>, else
  \<open>Sources(np.array(v))\<close>. \<open>wcs_header lib w\<close> is \<open>None\<close> when \<open>w\<close> is no \<open>WCS\<close>, and
  \<open>dict(w.to_header())\<close> when it is one. \<open>cutout2d lib data position size wcs\<close> is the call
  of \<open>Cutout2D\<close> in \<open>Image.cutout\<close>, giving the \<open>data\<close> and the \<open>wcs\<close> of the cutout.
  \<open>fsub lib\<close> and \<open>fadd lib\<close> are the subtraction and the addition of doubles, which round.
\<close>

record library =
  getter :: "string \<Rightarrow> image \<Rightarrow> error + val"
  to_sources :: "val \<Rightarrow> error + val"
  wcs_header :: "val \<Rightarrow> error + val option"
  cutout2d :: "val \<Rightarrow> rat \<times> rat \<Rightarrow> rat \<times> rat \<Rightarrow> val \<Rightarrow> error + val \<times> val"
  fsub :: "rat \<Rightarrow> rat \<Rightarrow> rat"
  fadd :: "rat \<Rightarrow> rat \<Rightarrow> rat"

text \<open>
  The names that lookup on the type finds (CPython 3.11). Functions of the class and of
  \<open>object\<close>, which an instance reads as bound methods; the properties of the class; and
  the three attributes that \<open>object\<close> and the type serve through descriptors of their own.
  \<open>__module__\<close> and \<open>__doc__\<close> are plain values of the class (it has no docstring).
\<close>

definition Image_methods :: "string list" where
  "Image_methods = [''__init__'', ''copy'', ''__copy__'', ''show'', ''_from_metadata_with_unit'',
     ''set'', ''get'', ''show_cutout'', ''cutout'', ''writeto'', ''plot_catalog'', ''plot_model'',
     ''__setattr__'', ''__getattr__'']"

definition object_methods :: "string list" where
  "object_methods = [''__repr__'', ''__hash__'', ''__str__'', ''__getattribute__'',
     ''__delattr__'', ''__lt__'', ''__le__'', ''__eq__'', ''__ne__'', ''__gt__'', ''__ge__'',
     ''__new__'', ''__reduce_ex__'', ''__reduce__'', ''__getstate__'', ''__subclasshook__'',
     ''__init_subclass__'', ''__format__'', ''__sizeof__'', ''__dir__'']"

definition Image_properties :: "string list" where
  "Image_properties = [''shape'', ''ra'', ''dec'', ''exposure'', ''jd'', ''pixel_scale'',
     ''filter'', ''fov'', ''date'', ''night_date'', ''sources'', ''wcs'', ''plate_solved'',
     ''skycoord'']"


definition class_attribute :: "string \<Rightarrow> val option" where
  "class_attribute name =
     (if name \<in> set Image_methods \<or> name \<in> set object_methods then Some (VMethod name)
      else if name = ''__module__'' then Some (VStr ''prose.core.image'')
      else if name = ''__doc__'' then Some VNone
      else None)"

text \<open>
  \<open>__getattr__\<close> (lines 387-394), called when normal lookup raises \<open>AttributeError\<close>.
  Without a \<open>computed\<close> entry in the instance dictionary the expression
  \<open>super.__getattr__\<close> raises \<open>AttributeError\<close>; so does a name missing from the computed
  store. \<open>name in self.computed\<close> and \<open>self.computed[name]\<close> are written out for the
  containers; on other values the \<open>in\<close> raises \<open>TypeError\<close>.
\<close>

definition Image_getattr_hook :: "image \<Rightarrow> string \<Rightarrow> error + val" where
  "Image_getattr_hook d name =
     (case map_of d ''computed'' of
        None \<Rightarrow> Inl AttributeError
      | Some (VDict c) \<Rightarrow> (case map_of c name of Some v \<Rightarrow> Inr v | None \<Rightarrow> Inl AttributeError)
      | Some (VList xs) \<Rightarrow> if VStr name \<in> set xs then Inl TypeError else Inl AttributeError
      | Some (VStr s) \<Rightarrow> if str_contains s name then Inl TypeError else Inl AttributeError
      | Some _ \<Rightarrow> Inl TypeError)"

text \<open>
  Reading \<open>image.name\<close> for a name that the type serves through no property and no
  descriptor of \<open>object\<close>: the instance dictionary, then the attributes of the class, then
  \<open>__getattr__\<close>. \<open>hasattr\<close> is true unless the read raises \<open>AttributeError\<close>; any other
  exception propagates.
\<close>

definition plain_getattribute :: "image \<Rightarrow> string \<Rightarrow> error + val" where
  "plain_getattribute d name =
     (case map_of d name of
        Some v \<Rightarrow> Inr v
      | None \<Rightarrow>
          (case class_attribute name of
             Some v \<Rightarrow> Inr v
           | None \<Rightarrow> Image_getattr_hook d name))"

definition plain_hasattr :: "image \<Rightarrow> string \<Rightarrow> error + bool" where
  "plain_hasattr d name =
     (case plain_getattribute d name of
        Inr v \<Rightarrow> Inr True
      | Inl AttributeError \<Rightarrow> Inr False
      | Inl e \<Rightarrow> Inl e)"

text \<open>\<open>self.computed[name] = value\<close>.\<close>

definition computed_store :: "image \<Rightarrow> string \<Rightarrow> val \<Rightarrow> error + image" where
  "computed_store d name v =
     (case map_of d ''computed'' of
        Some (VDict c) \<Rightarrow> Inr (AList.update ''computed'' (VDict (AList.update name v c)) d)
      | Some _ \<Rightarrow> Inl TypeError
      | None \<Rightarrow> Inl AttributeError)"

text \<open>
  \<open>Image.__setattr__\<close> (lines 378-385) for such a name: \<open>object.__setattr__\<close> makes or
  replaces the entry of the instance dictionary.
\<close>

definition plain_setattr :: "image \<Rightarrow> string \<Rightarrow> val \<Rightarrow> error + image" where
  "plain_setattr d name v =
     ebind (plain_hasattr d name) (\<lambda>has.
       if has then Inr (AList.update name v d)
       else if ''computed'' \<in> fst ` set d then computed_store d name v
       else Inr (AList.update name v d))"

text \<open>
  The getters of the properties (lines 147-205, 212-220, 301-304, 312-315, 324-327).
  \<open>self.metadata[key]\<close> raises \<open>KeyError\<close> on a missing key and \<open>TypeError\<close> when
  \<open>metadata\<close> is no dictionary.
\<close>

definition metadata_item :: "image \<Rightarrow> string \<Rightarrow> error + val" where
  "metadata_item d key =
     ebind (plain_getattribute d ''metadata'') (\<lambda>m.
       case m of
         VDict kvs \<Rightarrow> (case map_of kvs key of Some v \<Rightarrow> Inr v | None \<Rightarrow> Inl (KeyError key))
       | _ \<Rightarrow> Inl TypeError)"

definition property_getter :: "library \<Rightarrow> image \<Rightarrow> string \<Rightarrow> error + val" where
  "property_getter lib d name =
     (if name = ''sources'' then plain_getattribute d ''_sources''
      else if name = ''jd'' \<or> name = ''filter'' then metadata_item d name
      else getter lib name d)"

text \<open>
  Reading \<open>image.name\<close>, for every name. A property and the descriptors of \<open>object\<close>
  come before the instance dictionary; when a getter raises \<open>AttributeError\<close>,
  \<open>__getattr__\<close> is called.
\<close>

definition Image_getattribute :: "library \<Rightarrow> image \<Rightarrow> string \<Rightarrow> error + val" where
  "Image_getattribute lib d name =
     (if name \<in> set Image_properties then
        (case property_getter lib d name of
           Inl AttributeError \<Rightarrow> Image_getattr_hook d name
         | Inl e \<Rightarrow> Inl e
         | Inr v \<Rightarrow> Inr v)
      else if name = ''__dict__'' then Inr (VDict d)
      else if name = ''__class__'' then Inr VImageClass
      else if name = ''__weakref__'' then Inr VNone
      else plain_getattribute d name)"

definition Image_hasattr :: "library \<Rightarrow> image \<Rightarrow> string \<Rightarrow> error + bool" where
  "Image_hasattr lib d name =
     (case Image_getattribute lib d name of
        Inr v \<Rightarrow> Inr True
      | Inl AttributeError \<Rightarrow> Inr False
      | Inl e \<Rightarrow> Inl e)"

text \<open>
  \<open>self.metadata[key] = value\<close>: \<open>metadata\<close> is found in the instance dictionary, or by
  \<open>__getattr__\<close> in the computed store.
\<close>

definition metadata_setitem :: "image \<Rightarrow> string \<Rightarrow> val \<Rightarrow> error + image" where
  "metadata_setitem d key v =
     (case map_of d ''metadata'' of
        Some (VDict m) \<Rightarrow> Inr (AList.update ''metadata'' (VDict (AList.update key v m)) d)
      | Some _ \<Rightarrow> Inl TypeError
      | None \<Rightarrow>
          (case Image_getattr_hook d ''metadata'' of
             Inl e \<Rightarrow> Inl e
           | Inr (VDict m) \<Rightarrow>
               (case map_of d ''computed'' of
                  Some (VDict c) \<Rightarrow>
                    Inr (AList.update ''computed''
                           (VDict (AList.update ''metadata'' (VDict (AList.update key v m)) c)) d)
                | _ \<Rightarrow> Inl TypeError)
           | Inr _ \<Rightarrow> Inl TypeError))"

text \<open>
  \<open>object.__setattr__\<close>, for every name. The setter of \<open>sources\<close> (lines 222-227) assigns
  \<open>self._sources\<close>; the setter of \<open>wcs\<close> (lines 306-310) stores the header of a \<open>WCS\<close>
  under \<open>metadata["wcs"]\<close> and does nothing on other values; the other properties have no
  setter. \<open>__dict__\<close> takes a dictionary, which becomes the instance dictionary;
  \<open>__class__\<close> takes a class; \<open>__weakref__\<close> is not writable. Any other name makes or
  replaces an entry of the instance dictionary.
\<close>

definition object_setattr :: "library \<Rightarrow> image \<Rightarrow> string \<Rightarrow> val \<Rightarrow> error + image" where
  "object_setattr lib d name v =
     (if name = ''sources'' then ebind (to_sources lib v) (\<lambda>s. plain_setattr d ''_sources'' s)
      else if name = ''wcs'' then
        (case v of
           VObject w \<Rightarrow>
             ebind (wcs_header lib v) (\<lambda>h.
               case h of None \<Rightarrow> Inr d | Some hdr \<Rightarrow> metadata_setitem d ''wcs'' hdr)
         | _ \<Rightarrow> Inr d)
      else if name \<in> set Image_properties then Inl AttributeError
      else if name = ''__dict__'' then (case v of VDict kvs \<Rightarrow> Inr kvs | _ \<Rightarrow> Inl TypeError)
      else if name = ''__class__'' then (if v = VImageClass then Inr d else Inl TypeError)
      else if name = ''__weakref__'' then Inl AttributeError
      else Inr (AList.update name v d))"

text \<open>\<open>Image.__setattr__\<close> (lines 378-385), for every name.\<close>

definition Image_setattr :: "library \<Rightarrow> image \<Rightarrow> string \<Rightarrow> val \<Rightarrow> error + image" where
  "Image_setattr lib d name v =
     ebind (Image_hasattr lib d name) (\<lambda>has.
       if has then object_setattr lib d name v
       else if ''computed'' \<in> fst ` set d then computed_store d name v
       else object_setattr lib d name v)"

text \<open>\<open>Image.set\<close> and \<open>Image.get\<close> (lines 206-210).\<close>

definition Image_set :: "image \<Rightarrow> string \<Rightarrow> val \<Rightarrow> error + image" where
  "Image_set d name v = computed_store d name v"


text \<open>
  \<open>Image.__init__\<close> (lines 24-32). Each assignment goes through \<open>__setattr__\<close>; none of
  the seven names is a property. As \<open>computed\<close> is assigned last, all seven land in the
  instance dictionary.
\<close>

definition Image_init :: "val \<Rightarrow> val \<Rightarrow> val \<Rightarrow> error + image" where
  "Image_init data metadata computed =
     ebind (plain_setattr [] ''data'' data) (\<lambda>d1.
     ebind (plain_setattr d1 ''metadata'' (if metadata \<noteq> VNone then metadata else VDict [])) (\<lambda>d2.
     ebind (plain_setattr d2 ''catalogs'' (VDict [])) (\<lambda>d3.
     ebind (plain_setattr d3 ''_sources'' (VList [])) (\<lambda>d4.
     ebind (plain_setattr d4 ''discard'' (VBool False)) (\<lambda>d5.
     ebind (plain_setattr d5 ''origin'' (VList [VInt 0, VInt 0])) (\<lambda>d6.
     plain_setattr d6 ''computed'' (if computed \<noteq> VNone then computed else VDict [])))))))"

section \<open>Blocks\<close>

text \<open>
  A block is an object with a class, a name, the arguments it was constructed from and
  state of its own (timings, accumulated tables), here of type \<open>'bs\<close>. Its \<open>run\<close>
  mutates the image and the block, or raises; \<open>terminate\<close> mutates the block, or raises.
  \<open>is_data_block\<close> is \<open>isinstance(b, DataBlock)\<close>.
\<close>

record 'bs block =
  cls :: string
  block_name :: "string option"
  args :: "val list"
  kwargs :: pydict
  is_data_block :: bool
  state :: 'bs
  run :: "'bs \<Rightarrow> image \<Rightarrow> error + ('bs \<times> image)"
  terminate :: "'bs \<Rightarrow> error + 'bs"

text \<open>
  Modelled from the spec: the class \<open>Block\<close> of \<open>prose/blocks\<close>, whose \<open>_run\<close> the
  sequences call, is not among the sources. By section 4.2 the orchestrator-managed
  instrumentation wraps every \<open>run\<close> call with elapsed-time accounting attributed to the
  block; the time is part of the block's state and \<open>_run\<close> is the call of \<open>run\<close>.
\<close>

definition Block_run :: "'bs block \<Rightarrow> image \<Rightarrow> error + ('bs block \<times> image)" where
  "Block_run b img =
     (case run b (state b) img of
        Inl e \<Rightarrow> Inl e
      | Inr (s, img') \<Rightarrow> Inr (b\<lparr>state := s\<rparr>, img'))"

definition Block_terminate :: "'bs block \<Rightarrow> error + 'bs block" where
  "Block_terminate b =
     (case terminate b (state b) of Inl e \<Rightarrow> Inl e | Inr s \<Rightarrow> Inr (b\<lparr>state := s\<rparr>))"

section \<open>Sequence (prose/sequence.py)\<close>

datatype item = Path string | Img image

text \<open>
  The \<open>images\<close> argument of \<open>run\<close>: one path or image, a \<open>list\<close>, \<open>None\<close>, or another
  iterable (a tuple, an array).
\<close>

datatype images_arg = Single item | PyList "item list" | PyNone | PyIter "item list"

record 'bs sequence =
  seq_name :: string
  files_or_images :: images_arg
  blocks_dict :: "(string \<times> 'bs block) list"
  loader :: "string \<Rightarrow> val \<Rightarrow> error + image"
  n_processed_images :: "nat option"
  last_image :: "image option"

text \<open>What the run writes to the console through \<open>warning\<close> and \<open>error\<close>.\<close>

datatype message =
    LiveDiscard nat string
  | BatchDiscard string "string list"
  | DataBlocksError "string list"

text \<open>
  The calls a run makes, in order: the loader on input \<open>i\<close>, \<open>_run\<close> of block \<open>b\<close> on
  image \<open>i\<close> (with whether \<open>image.discard\<close> is set and true when the call returns), and
  \<open>terminate\<close> of block \<open>b\<close>.
\<close>

datatype event = Loaded nat | Ran nat nat bool | Terminated nat

record trace =
  console :: "message list"
  events :: "event list"

text \<open>
  How a call of \<open>run\<close> ends: it raises on its checks, before the loop (\<open>Rejected\<close>, with
  the object and the trace at that point); an exception leaves the loop (\<open>Aborted\<close>); or it
  returns (\<open>Done\<close>).
\<close>

datatype ('s, 't) outcome =
    Rejected error 's 't
  | Aborted error
  | Done 's 't

text \<open>The \<open>blocks\<close> property: setter (lines 34-39) and getter (lines 30-32).\<close>

definition block_key :: "nat \<Rightarrow> 'bs block \<Rightarrow> string" where
  "block_key i b = (case block_name b of Some n \<Rightarrow> n | None \<Rightarrow> ''block'' @ str_nat i)"

definition set_blocks :: "'bs block list \<Rightarrow> (string \<times> 'bs block) list" where
  "set_blocks bs = foldl (\<lambda>d (i, b). AList.update (block_key i b) b d) [] (enumerate 0 bs)"

definition blocks :: "('bs, 'x) sequence_scheme \<Rightarrow> 'bs block list" where
  "blocks s = map snd (blocks_dict s)"

text \<open>Blocks are objects: running them changes the values of the mapping in place.\<close>

definition store_blocks :: "'bs block list \<Rightarrow> ('bs, 'x) sequence_scheme \<Rightarrow> ('bs, 'x) sequence_scheme" where
  "store_blocks bs s = s\<lparr>blocks_dict := zip (map fst (blocks_dict s)) bs\<rparr>"

text \<open>\<open>Sequence.__init__\<close> (lines 18-25).\<close>

definition Sequence_init :: "'bs block list \<Rightarrow> string \<Rightarrow> (string \<Rightarrow> val \<Rightarrow> error + image) \<Rightarrow> 'bs sequence" where
  "Sequence_init bs nm ld =
     \<lparr>seq_name = nm, files_or_images = PyList [], blocks_dict = set_blocks bs, loader = ld,
      n_processed_images = None, last_image = None\<rparr>"

subsection \<open>Sequence.run\<close>

text \<open>\<open>image.discard\<close> as a condition.\<close>

definition discard_flag :: "image \<Rightarrow> error + bool" where
  "discard_flag img =
     (case plain_getattribute img ''discard'' of Inl e \<Rightarrow> Inl e | Inr v \<Rightarrow> Inr (truthy v))"

text \<open>
  Lines 91-93: \<open>if last_block not in discards: discards[last_block] = []\<close>, then
  \<open>discards[last_block].append(str(i))\<close>.
\<close>

definition append_discard :: "string \<Rightarrow> string \<Rightarrow> (string \<times> string list) list \<Rightarrow> (string \<times> string list) list" where
  "append_discard lb s ds =
     (case map_of ds lb of
        None \<Rightarrow> AList.update lb [s] ds
      | Some l \<Rightarrow> AList.update lb (l @ [s]) ds)"

text \<open>The state of the loop over the blocks for one image (lines 73-93).\<close>

record lstate =
  l_image :: image
  discard_message :: bool
  last_block :: "string option"
  discards :: "(string \<times> string list) list"
  l_console :: "message list"
  l_events :: "event list"

text \<open>
  Lines 86-93, on the first skipped block: the cause is recorded and reported, at once
  (\<open>live_discard\<close>) or in \<open>discards\<close>.
\<close>

definition note_discard :: "bool \<Rightarrow> nat \<Rightarrow> string \<Rightarrow> lstate \<Rightarrow> lstate" where
  "note_discard live i lb st =
     (if live
      then st\<lparr>last_block := Some lb, discard_message := True,
              l_console := l_console st @ [LiveDiscard i lb]\<rparr>
      else st\<lparr>last_block := Some lb, discard_message := True,
              discards := append_discard lb (str_nat i) (discards st)\<rparr>)"

text \<open>
  The loop \<open>for b, block in enumerate(self.blocks)\<close>, from index \<open>b\<close> on the blocks still
  to visit. \<open>names\<close> are the class names of all the blocks, for
  \<open>type(self.blocks[b-1]).__name__\<close>. The result holds the blocks as the loop leaves them.
\<close>

fun run_blocks :: "string list \<Rightarrow> bool \<Rightarrow> nat \<Rightarrow> nat \<Rightarrow> 'bs block list \<Rightarrow> lstate
    \<Rightarrow> error + ('bs block list \<times> lstate)" where
  "run_blocks names live i b [] st = Inr ([], st)"
| "run_blocks names live i b (blk # rest) st =
     (case discard_flag (l_image st) of
        Inl e \<Rightarrow> Inl e
      | Inr disc \<Rightarrow>
          if \<not> disc then
            (case Block_run blk (l_image st) of
               Inl e \<Rightarrow> Inl e
             | Inr (blk', img') \<Rightarrow>
                 (case run_blocks names live i (Suc b) rest
                         (st\<lparr>l_image := img',
                             l_events := l_events st @ [Ran b i (discard_flag img' = Inr True)]\<rparr>) of
                    Inl e \<Rightarrow> Inl e
                  | Inr (rest', st') \<Rightarrow> Inr (blk' # rest', st')))
          else if \<not> discard_message st then
            (case py_index names (int b - 1) of
               Inl e \<Rightarrow> Inl e
             | Inr lb \<Rightarrow>
                 (case run_blocks names live i (Suc b) rest (note_discard live i lb st) of
                    Inl e \<Rightarrow> Inl e
                  | Inr (rest', st') \<Rightarrow> Inr (blk # rest', st')))
          else
            (case run_blocks names live i (Suc b) rest st of
               Inl e \<Rightarrow> Inl e
             | Inr (rest', st') \<Rightarrow> Inr (blk # rest', st')))"

text \<open>The state of the loop over the inputs (lines 66-96).\<close>

record 'bs rstate =
  r_blocks :: "'bs block list"
  r_n :: nat
  r_last :: "image option"
  r_discards :: "(string \<times> string list) list"
  r_console :: "message list"
  r_events :: "event list"

text \<open>Lines 67-70: a path goes through the loader, an image is used as it is.\<close>

definition load_item :: "(string \<Rightarrow> val \<Rightarrow> error + image) \<Rightarrow> val \<Rightarrow> item \<Rightarrow> error + image" where
  "load_item ld telescope it = (case it of Path p \<Rightarrow> ld p telescope | Img img \<Rightarrow> Inr img)"

definition load_events :: "nat \<Rightarrow> item \<Rightarrow> event list" where
  "load_events i it = (case it of Path p \<Rightarrow> [Loaded i] | Img img \<Rightarrow> [])"

text \<open>
  One turn of the loop over the inputs. \<open>_last_image\<close> refers to the image object, which
  the blocks then mutate: after the turn it holds the image as the blocks left it.
\<close>

definition run_image :: "(string \<Rightarrow> val \<Rightarrow> error + image) \<Rightarrow> val \<Rightarrow> bool \<Rightarrow> nat \<Rightarrow> item
    \<Rightarrow> 'bs rstate \<Rightarrow> error + 'bs rstate" where
  "run_image ld telescope live i it r =
     (case load_item ld telescope it of
        Inl e \<Rightarrow> Inl e
      | Inr img0 \<Rightarrow>
          (case plain_setattr img0 ''i'' (VInt (int i)) of
             Inl e \<Rightarrow> Inl e
           | Inr img \<Rightarrow>
               (case run_blocks (map cls (r_blocks r)) live i 0 (r_blocks r)
                       \<lparr>l_image = img, discard_message = False, last_block = None,
                        discards = r_discards r, l_console = r_console r,
                        l_events = r_events r @ load_events i it\<rparr> of
                  Inl e \<Rightarrow> Inl e
                | Inr (bs', st) \<Rightarrow>
                    Inr \<lparr>r_blocks = bs', r_n = r_n r + 1, r_last = Some (l_image st),
                         r_discards = discards st, r_console = l_console st,
                         r_events = l_events st\<rparr>)))"

fun run_images :: "(string \<Rightarrow> val \<Rightarrow> error + image) \<Rightarrow> val \<Rightarrow> bool \<Rightarrow> nat \<Rightarrow> item list
    \<Rightarrow> 'bs rstate \<Rightarrow> error + 'bs rstate" where
  "run_images ld telescope live i [] r = Inr r"
| "run_images ld telescope live i (it # its) r =
     (case run_image ld telescope live i it r of
        Inl e \<Rightarrow> Inl e
      | Inr r' \<Rightarrow> run_images ld telescope live (Suc i) its r')"

text \<open>\<open>Sequence.terminate\<close> (lines 106-108), from block index \<open>b\<close> on.\<close>

fun terminate_blocks :: "nat \<Rightarrow> 'bs block list \<Rightarrow> event list \<Rightarrow> error + ('bs block list \<times> event list)" where
  "terminate_blocks b [] evs = Inr ([], evs)"
| "terminate_blocks b (blk # rest) evs =
     (case Block_terminate blk of
        Inl e \<Rightarrow> Inl e
      | Inr blk' \<Rightarrow>
          (case terminate_blocks (Suc b) rest (evs @ [Terminated b]) of
             Inl e \<Rightarrow> Inl e
           | Inr (rest', evs') \<Rightarrow> Inr (blk' # rest', evs')))"

text \<open>Line 43 and lines 57-61.\<close>

definition normalise_images :: "images_arg \<Rightarrow> images_arg" where
  "normalise_images images = (case images of Single x \<Rightarrow> PyList [x] | _ \<Rightarrow> images)"

definition validate_images :: "images_arg \<Rightarrow> error + item list" where
  "validate_images fi =
     (case fi of
        PyList xs \<Rightarrow> if length xs = 0 then Inl (ValueError ''No images to process'') else Inr xs
      | PyNone \<Rightarrow> Inl (ValueError ''No images to process'')
      | PyIter xs \<Rightarrow> Inr xs
      | Single x \<Rightarrow> Inr [x])"

text \<open>Lines 102-104: one warning for each key of \<open>discards\<close>.\<close>

definition discard_warnings :: "(string \<times> string list) list \<Rightarrow> message list" where
  "discard_warnings ds = map (\<lambda>(block_name, discarded). BatchDiscard block_name discarded) ds"

text \<open>
  \<open>Sequence.run\<close> (lines 41-104). \<open>show_progress\<close> only wraps the inputs in a progress
  bar. An exception raised by the loader, by \<open>__setattr__\<close> or by a block leaves the
  loop: \<open>Aborted\<close>.
\<close>

definition Sequence_run :: "('bs, 'x) sequence_scheme \<Rightarrow> images_arg \<Rightarrow> bool \<Rightarrow> bool \<Rightarrow> val \<Rightarrow> bool
    \<Rightarrow> (('bs, 'x) sequence_scheme, trace) outcome" where
  "Sequence_run self images show_progress live_discard telescope do_terminate =
     (let s1 = self\<lparr>files_or_images := normalise_images images\<rparr> in
      case validate_images (files_or_images s1) of
        Inl e \<Rightarrow> Rejected e s1 \<lparr>console = [], events = []\<rparr>
      | Inr xs \<Rightarrow>
          (case run_images (loader s1) telescope live_discard 0 xs
                  \<lparr>r_blocks = blocks s1, r_n = 0, r_last = last_image s1, r_discards = [],
                   r_console = [], r_events = []\<rparr> of
             Inl e \<Rightarrow> Aborted e
           | Inr r \<Rightarrow>
               (case (if do_terminate then terminate_blocks 0 (r_blocks r) (r_events r)
                      else Inr (r_blocks r, r_events r)) of
                  Inl e \<Rightarrow> Aborted e
                | Inr (bs', evs) \<Rightarrow>
                    Done (store_blocks bs' (s1\<lparr>n_processed_images := Some (r_n r),
                                               last_image := r_last r\<rparr>))
                         \<lparr>console = r_console r @
                                    (if \<not> live_discard then discard_warnings (r_discards r) else []),
                          events = evs\<rparr>)))"

section \<open>Example objects\<close>

text \<open>\<open>Image()\<close>: the instance dictionary \<open>__init__\<close> leaves.\<close>

definition new_image :: image where
  "new_image = [(''data'', VNone), (''metadata'', VDict []), (''catalogs'', VDict []),
     (''_sources'', VList []), (''discard'', VBool False),
     (''origin'', VList [VInt 0, VInt 0]), (''computed'', VDict [])]"

text \<open>A block whose \<open>run\<close> leaves the image as it is.\<close>

definition plain_block :: "string \<Rightarrow> unit block" where
  "plain_block c =
     \<lparr>cls = c, block_name = None, args = [], kwargs = [], is_data_block = False, state = (),
      run = (\<lambda>s img. Inr (s, img)), terminate = (\<lambda>s. Inr s)\<rparr>"

text \<open>A block whose \<open>run\<close> does \<open>image.discard = True\<close> when \<open>image.i\<close> is one of \<open>js\<close>.\<close>

definition discarding_block :: "string \<Rightarrow> int list \<Rightarrow> unit block" where
  "discarding_block c js =
     \<lparr>cls = c, block_name = None, args = [], kwargs = [], is_data_block = False, state = (),
      run = (\<lambda>s img.
        case plain_getattribute img ''i'' of
          Inl e \<Rightarrow> Inl e
        | Inr v \<Rightarrow>
            if v \<in> VInt ` set js
            then (case plain_setattr img ''discard'' (VBool True) of
                    Inl e \<Rightarrow> Inl e
                  | Inr img' \<Rightarrow> Inr (s, img'))
            else Inr (s, img)),
      terminate = (\<lambda>s. Inr s)\<rparr>"

definition no_loader :: "string \<Rightarrow> val \<Rightarrow> error + image" where
  "no_loader p telescope = Inl (BlockError ''no file'')"

text \<open>Blocks A, B, C, where B discards images 1 and 3.\<close>

definition abc_sequence :: "unit sequence" where
  "abc_sequence =
     Sequence_init [plain_block ''A'', discarding_block ''B'' [1, 3], plain_block ''C'']
       [] no_loader"

text \<open>The indices of the blocks whose \<open>_run\<close> a trace shows on image \<open>i\<close>, in order.\<close>

definition blocks_run_on :: "event list \<Rightarrow> nat \<Rightarrow> nat list" where
  "blocks_run_on evs i =
     concat (map (\<lambda>ev. case ev of Ran b j d \<Rightarrow> if j = i then [b] else [] | _ \<Rightarrow> []) evs)"

section \<open>MPSequence (prose/sequence.py, lines 163-249)\<close>

text \<open>
  The parallel sequence adds \<open>data\<close>: \<open>None\<close>, or a \<open>Sequence\<close> of the data blocks
  (\<open>_has_data\<close> says which).
\<close>

record 'bs mpsequence = "'bs sequence" +
  data :: "'bs sequence option"

text \<open>
  The default loader \<open>Image\<close>: \<open>Image(path, telescope=telescope)\<close> does not match the
  signature of \<open>Image.__init__\<close>.
\<close>

definition Image_loader :: "string \<Rightarrow> val \<Rightarrow> error + image" where
  "Image_loader p telescope = Inl TypeError"

definition MPSequence_init :: "'bs block list \<Rightarrow> 'bs block list option \<Rightarrow> string
    \<Rightarrow> (string \<Rightarrow> val \<Rightarrow> error + image) \<Rightarrow> 'bs mpsequence" where
  "MPSequence_init bs data_blocks nm ld =
     \<lparr>seq_name = nm, files_or_images = PyList [], blocks_dict = set_blocks bs, loader = ld,
      n_processed_images = None, last_image = None,
      data = (case data_blocks of
                None \<Rightarrow> None
              | Some dbs \<Rightarrow> Some (Sequence_init dbs [] Image_loader))\<rparr>"

text \<open>
  The calls of a parallel run: those the workers make on the main chain, and those of the
  data sub-sequence, which numbers the one image of each of its runs 0. The workers run
  side by side; the trace lists their calls input by input, in the order in which \<open>imap\<close>
  hands the results to the coordinator.
\<close>

datatype mp_event = InWorker event | InData event

datatype mp_message = Coordinator message | WorkerDiscard string | DataSeq message

record mp_trace =
  mp_console :: "mp_message list"
  mp_events :: "mp_event list"

text \<open>\<open>check_data_blocks\<close> (lines 174-182); \<open>np.unique\<close> sorts and removes duplicates.\<close>

definition bad_blocks :: "('bs, 'x) sequence_scheme \<Rightarrow> string list" where
  "bad_blocks self = map cls (filter is_data_block (blocks self))"

definition check_data_blocks :: "('bs, 'x) sequence_scheme \<Rightarrow> (error \<times> message) option" where
  "check_data_blocks self =
     (if length (bad_blocks self) > 0
      then Some (SystemExit, DataBlocksError (sort (remdups (bad_blocks self))))
      else None)"

text \<open>The state of the loop of \<open>_run_all\<close> (lines 237-247).\<close>

record 'bs wstate =
  w_image :: image
  w_discard_message :: bool
  w_last_block :: "'bs block option"
  w_console :: "mp_message list"
  w_events :: "event list"

text \<open>
  The loop of \<open>_run_all\<close> from index \<open>b\<close>, on the worker's replica \<open>all_blocks\<close> of the
  blocks; \<open>pos\<close> is the position of the input, for the trace only. What \<open>_run\<close> does to
  the replica of a block stays in the worker.
\<close>

fun run_all_blocks :: "'bs block list \<Rightarrow> nat \<Rightarrow> nat \<Rightarrow> 'bs block list \<Rightarrow> 'bs wstate
    \<Rightarrow> error + 'bs wstate" where
  "run_all_blocks all_blocks pos b [] st = Inr st"
| "run_all_blocks all_blocks pos b (blk # rest) st =
     (case discard_flag (w_image st) of
        Inl e \<Rightarrow> Inl e
      | Inr disc \<Rightarrow>
          if \<not> disc then
            (case Block_run blk (w_image st) of
               Inl e \<Rightarrow> Inl e
             | Inr (blk', img') \<Rightarrow>
                 run_all_blocks all_blocks pos (Suc b) rest
                   (st\<lparr>w_image := img',
                       w_events := w_events st @ [Ran b pos (discard_flag img' = Inr True)]\<rparr>))
          else if \<not> w_discard_message st then
            (case py_index all_blocks (int b - 1) of
               Inl e \<Rightarrow> Inl e
             | Inr lb \<Rightarrow>
                 run_all_blocks all_blocks pos (Suc b) rest
                   (st\<lparr>w_last_block := Some lb, w_discard_message := True,
                       w_console := w_console st @ [WorkerDiscard (cls lb)]\<rparr>))
          else run_all_blocks all_blocks pos (Suc b) rest st)"

text \<open>\<open>_run_all\<close> (lines 230-249): the loader is called without a telescope.\<close>

definition run_all :: "nat \<Rightarrow> item \<Rightarrow> 'bs block list \<Rightarrow> (string \<Rightarrow> val \<Rightarrow> error + image)
    \<Rightarrow> error + 'bs wstate" where
  "run_all pos file_or_image bs ld =
     (case load_item ld VNone file_or_image of
        Inl e \<Rightarrow> Inl e
      | Inr img \<Rightarrow>
          run_all_blocks bs pos 0 bs
            \<lparr>w_image = img, w_discard_message = False, w_last_block = None, w_console = [],
             w_events = load_events pos file_or_image\<rparr>)"

text \<open>
  Lines 217-224: each image that comes back from the pool goes, when there is a data
  sub-sequence, through \<open>self.data.run(image, terminate=False, show_progress=False)\<close>.
\<close>

fun mp_images :: "(string \<Rightarrow> val \<Rightarrow> error + image) \<Rightarrow> 'bs block list \<Rightarrow> nat \<Rightarrow> item list
    \<Rightarrow> 'bs sequence option \<Rightarrow> mp_trace \<Rightarrow> error + ('bs sequence option \<times> mp_trace)" where
  "mp_images ld bs pos [] dat tr = Inr (dat, tr)"
| "mp_images ld bs pos (it # its) dat tr =
     (case run_all pos it bs ld of
        Inl e \<Rightarrow> Inl e
      | Inr w \<Rightarrow>
          (case dat of
             None \<Rightarrow>
               mp_images ld bs (Suc pos) its None
                 \<lparr>mp_console = mp_console tr @ w_console w,
                  mp_events = mp_events tr @ map InWorker (w_events w)\<rparr>
           | Some ds \<Rightarrow>
               (case Sequence_run ds (Single (Img (w_image w))) False False VNone False of
                  Rejected e s t \<Rightarrow> Inl e
                | Aborted e \<Rightarrow> Inl e
                | Done ds' t \<Rightarrow>
                    mp_images ld bs (Suc pos) its (Some ds')
                      \<lparr>mp_console = mp_console tr @ w_console w @ map DataSeq (console t),
                       mp_events = mp_events tr @ map InWorker (w_events w)
                                   @ map InData (events t)\<rparr>)))"

text \<open>
  \<open>MPSequence.run\<close> (lines 184-228). \<open>globals\<close> is not used. The coordinator's own
  blocks are never run: \<open>n_processed_images\<close> stays 0 and \<open>blocks_dict\<close> is as before.
  Without \<open>show_progress\<close>, \<open>progress\<close> is \<open>lambda x: x\<close> (line 203), and the call
  \<open>progress(pool.imap(...), total=n)\<close> of line 218 raises \<open>TypeError\<close>: the inputs are
  handed to the pool, no result is taken from it, and the run ends there.
\<close>

definition MPSequence_run :: "'bs mpsequence \<Rightarrow> images_arg \<Rightarrow> val \<Rightarrow> bool \<Rightarrow> bool \<Rightarrow> bool
    \<Rightarrow> ('bs mpsequence, mp_trace) outcome" where
  "MPSequence_run self images globals show_progress live_discard do_terminate =
     (case check_data_blocks self of
        Some (e, msg) \<Rightarrow> Rejected e self \<lparr>mp_console = [Coordinator msg], mp_events = []\<rparr>
      | None \<Rightarrow>
          (let s1 = self\<lparr>files_or_images := normalise_images images\<rparr> in
           case validate_images (files_or_images s1) of
             Inl e \<Rightarrow> Rejected e s1 \<lparr>mp_console = [], mp_events = []\<rparr>
           | Inr xs \<Rightarrow>
               if \<not> show_progress then Aborted TypeError
               else
                 (case mp_images (loader s1) (blocks s1) 0 xs (data s1)
                         \<lparr>mp_console = [], mp_events = []\<rparr> of
                    Inl e \<Rightarrow> Aborted e
                  | Inr (dat, tr) \<Rightarrow>
                      (case (if do_terminate then dat else None) of
                         None \<Rightarrow> Done (s1\<lparr>n_processed_images := Some 0, data := dat\<rparr>) tr
                       | Some ds \<Rightarrow>
                           (case terminate_blocks 0 (blocks ds) [] of
                              Inl e \<Rightarrow> Aborted e
                            | Inr (bs', evs) \<Rightarrow>
                                Done (s1\<lparr>n_processed_images := Some 0,
                                         data := Some (store_blocks bs' ds)\<rparr>)
                                     (tr\<lparr>mp_events := mp_events tr @ map InData evs\<rparr>))))))"

text \<open>A data block, and a parallel sequence with the chain A, B and one data block.\<close>

definition data_block :: "string \<Rightarrow> unit block" where
  "data_block c = (plain_block c)\<lparr>is_data_block := True\<rparr>"

text \<open>A block whose \<open>run\<close> always does \<open>image.discard = True\<close>.\<close>

definition discard_all_block :: "string \<Rightarrow> unit block" where
  "discard_all_block c =
     (plain_block c)\<lparr>run := (\<lambda>s img.
        case plain_setattr img ''discard'' (VBool True) of
          Inl e \<Rightarrow> Inl e
        | Inr img' \<Rightarrow> Inr (s, img'))\<rparr>"

definition mp_example :: "unit mpsequence" where
  "mp_example =
     MPSequence_init [plain_block ''A'', discard_all_block ''B''] (Some [data_block ''D''])
       [] no_loader"

definition mp_bad_example :: "unit mpsequence" where
  "mp_bad_example =
     MPSequence_init [plain_block ''A'', data_block ''D''] None [] no_loader"

text \<open>
  A block that counts its runs and whose \<open>terminate\<close> adds 100 to the count; and a
  parallel sequence with one such block in the main chain and one as data block.
\<close>

definition tally_block :: "string \<Rightarrow> bool \<Rightarrow> nat block" where
  "tally_block c is_data =
     \<lparr>cls = c, block_name = None, args = [], kwargs = [], is_data_block = is_data, state = 0,
      run = (\<lambda>s img. Inr (Suc s, img)), terminate = (\<lambda>s. Inr (s + 100))\<rparr>"

definition mp_tally_example :: "nat mpsequence" where
  "mp_tally_example =
     MPSequence_init [tally_block ''A'' False] (Some [tally_block ''D'' True]) [] no_loader"

text \<open>Telling the \<open>terminate\<close> calls apart from the other calls of a trace.\<close>

definition is_terminated :: "event \<Rightarrow> bool" where
  "is_terminated ev = (case ev of Terminated b \<Rightarrow> True | _ \<Rightarrow> False)"

definition is_mp_terminated :: "mp_event \<Rightarrow> bool" where
  "is_mp_terminated ev = (case ev of InWorker e \<Rightarrow> is_terminated e | InData e \<Rightarrow> is_terminated e)"

section \<open>Export and import of a sequence (lines 139-160)\<close>

text \<open>A descriptor names the class of a block, its name and its construction arguments.\<close>

record descriptor =
  d_block :: string
  d_name :: "string option"
  d_args :: "val list"
  d_kwargs :: pydict

text \<open>\<open>Sequence.as_dicts\<close> (lines 149-160); \<open>descr\<close> is the \<open>dict\<close> of lines 153-158.\<close>

definition descr :: "'bs block \<Rightarrow> descriptor" where
  "descr b = \<lparr>d_block = cls b, d_name = block_name b, d_args = args b, d_kwargs = kwargs b\<rparr>"

definition as_dicts :: "('bs, 'x) sequence_scheme \<Rightarrow> descriptor list" where
  "as_dicts self = map descr (blocks self)"

text \<open>
  \<open>Sequence.from_dicts\<close> (lines 139-147). The block classes are not among the sources:
  \<open>new c args kwargs\<close> stands for the call \<open>c(*args, **kwargs)\<close> of the class named \<open>c\<close>,
  which may raise.
\<close>

fun build_blocks :: "(string \<Rightarrow> val list \<Rightarrow> pydict \<Rightarrow> error + 'bs block) \<Rightarrow> descriptor list
    \<Rightarrow> error + 'bs block list" where
  "build_blocks new [] = Inr []"
| "build_blocks new (block_dict # rest) =
     (case new (d_block block_dict) (d_args block_dict) (d_kwargs block_dict) of
        Inl e \<Rightarrow> Inl e
      | Inr block \<Rightarrow>
          (case build_blocks new rest of
             Inl e \<Rightarrow> Inl e
           | Inr bs \<Rightarrow> Inr (block\<lparr>block_name := d_name block_dict\<rparr> # bs)))"

definition from_dicts :: "(string \<Rightarrow> val list \<Rightarrow> pydict \<Rightarrow> error + 'bs block) \<Rightarrow> descriptor list
    \<Rightarrow> error + 'bs sequence" where
  "from_dicts new blocks_dicts =
     (case build_blocks new blocks_dicts of
        Inl e \<Rightarrow> Inl e
      | Inr bs \<Rightarrow> Inr (Sequence_init bs [] Image_loader))"

text \<open>The key each block gets when a sequence is built from the list \<open>bs\<close>.\<close>

definition block_keys :: "'bs block list \<Rightarrow> string list" where
  "block_keys bs = map (\<lambda>(i, b). block_key i b) (enumerate 0 bs)"

text \<open>
  A constructor for the examples: a block of the class that keeps its arguments and does
  nothing. And a sequence built from two blocks named \<open>block1\<close> and an unnamed one.
\<close>

definition plain_new :: "string \<Rightarrow> val list \<Rightarrow> pydict \<Rightarrow> error + unit block" where
  "plain_new c a k = Inr ((plain_block c)\<lparr>args := a, kwargs := k\<rparr>)"

definition renamed_sequence :: "unit sequence" where
  "renamed_sequence =
     Sequence_init [(plain_block ''X'')\<lparr>block_name := Some ''block1''\<rparr>,
                    (plain_block ''Y'')\<lparr>block_name := Some ''block1''\<rparr>,
                    plain_block ''Z''] [] no_loader"

text \<open>
  Whether a call of a trace involves no block from index \<open>k\<close> on, and the sequence cut
  down to its first \<open>k\<close> blocks.
\<close>

definition block_below :: "nat \<Rightarrow> event \<Rightarrow> bool" where
  "block_below k ev = (case ev of Loaded i \<Rightarrow> True | Ran b i d \<Rightarrow> b < k | Terminated b \<Rightarrow> b < k)"

definition first_blocks :: "nat \<Rightarrow> ('bs, 'x) sequence_scheme \<Rightarrow> ('bs, 'x) sequence_scheme" where
  "first_blocks k self = self\<lparr>blocks_dict := take k (blocks_dict self)\<rparr>"

text \<open>
  What the end-of-run warnings say: the (cause, image index) pairs, and the causes.
\<close>

definition reported_pairs :: "message list \<Rightarrow> (string \<times> string) list" where
  "reported_pairs msgs =
     concat (map (\<lambda>m. case m of BatchDiscard c l \<Rightarrow> map (Pair c) l | _ \<Rightarrow> []) msgs)"

definition reported_causes :: "message list \<Rightarrow> string list" where
  "reported_causes msgs =
     concat (map (\<lambda>m. case m of BatchDiscard c l \<Rightarrow> [c] | _ \<Rightarrow> []) msgs)"

text \<open>
  The calls of a trace that left an image discarded with a block still to come, of \<open>n\<close>
  blocks: the pairs (block index, image index), in order. And the \<open>discards\<close> table that
  recording them one after the other gives.
\<close>

definition discard_causes :: "nat \<Rightarrow> event list \<Rightarrow> (nat \<times> nat) list" where
  "discard_causes n evs =
     concat (map (\<lambda>ev. case ev of Ran k i d \<Rightarrow> if d \<and> Suc k < n then [(k, i)] else []
                                  | _ \<Rightarrow> []) evs)"

definition record_causes :: "string list \<Rightarrow> (nat \<times> nat) list \<Rightarrow> (string \<times> string list) list
    \<Rightarrow> (string \<times> string list) list" where
  "record_causes names cs ds =
     foldl (\<lambda>ds (k, i). append_discard (names ! k) (str_nat i) ds) ds cs"

text \<open>
  Two inputs for the discard report: a batch whose second image arrives discarded, and a
  chain with two blocks of one class that each discard an image.
\<close>

definition discarded_image :: image where
  "discarded_image = AList.update ''discard'' (VBool True) new_image"

definition aac_sequence :: "unit sequence" where
  "aac_sequence =
     Sequence_init [discarding_block ''A'' [0], discarding_block ''A'' [1], plain_block ''C'']
       [] no_loader"

section \<open>Cutouts (prose/core/image.py, lines 255-298)\<close>

text \<open>
  Modelled from the spec: the class \<open>Sources\<close> of \<open>prose/core/source.py\<close> is not among
  the sources. By section 4.1 an image has attached point-sources, each with a coordinate;
  a \<open>Sources\<close> collection is a \<open>VList\<close> of \<open>VSource\<close> values (the coordinate \<open>(x, y)\<close> and
  the other attributes), \<open>.coords\<close> gives the coordinates, indexing with a mask keeps the
  marked elements, and \<open>s.copy()\<close> is the source itself.
\<close>

fun is_source :: "val \<Rightarrow> bool" where
  "is_source (VSource c a) = True"
| "is_source v = False"

text \<open>
  Lines 284-286, for one source: \<open>np.abs(coords_s - coords) < np.array(shape)[::-1] / 2\<close>
  on both axes. \<open>shape\<close> is (rows, columns) and a coordinate is (x, y): the reversed
  shape pairs x with the columns. The coordinates are doubles: the subtraction rounds
  (\<open>fsub\<close>); the absolute value and the comparison are exact, and so is halving the shape.
\<close>

fun sources_in :: "library \<Rightarrow> rat \<times> rat \<Rightarrow> rat \<times> rat \<Rightarrow> val \<Rightarrow> bool" where
  "sources_in lib coords shape (VSource c a) =
     (\<bar>fsub lib (fst c) (fst coords)\<bar> < snd shape / 2 \<and>
      \<bar>fsub lib (snd c) (snd coords)\<bar> < fst shape / 2)"
| "sources_in lib coords shape v = False"

text \<open>
  Lines 290-291: \<open>_s.coords = _s.coords - coords + np.array(shape)[::-1] / 2\<close>, a
  subtraction and then an addition of doubles.
\<close>

fun recoordinate :: "library \<Rightarrow> rat \<times> rat \<Rightarrow> rat \<times> rat \<Rightarrow> val \<Rightarrow> val" where
  "recoordinate lib coords shape (VSource c a) =
     VSource (fadd lib (fsub lib (fst c) (fst coords)) (snd shape / 2),
              fadd lib (fsub lib (snd c) (snd coords)) (fst shape / 2)) a"
| "recoordinate lib coords shape v = v"

text \<open>Lines 282-292.\<close>

definition cutout_sources :: "library \<Rightarrow> val \<Rightarrow> rat \<times> rat \<Rightarrow> rat \<times> rat \<Rightarrow> error + val list" where
  "cutout_sources lib srcs coords shape =
     (case srcs of
        VList ss \<Rightarrow>
          if length ss > 0
          then (if list_all is_source ss
                then Inr (map (recoordinate lib coords shape)
                            (filter (sources_in lib coords shape) ss))
                else Inl AttributeError)
          else Inr []
      | _ \<Rightarrow> Inl TypeError)"

text \<open>
  \<open>Image.cutout\<close>. With \<open>wcs\<close> the property \<open>self.wcs\<close> is read and passed to
  \<open>Cutout2D\<close>; the last statement, \<open>image.wcs = new_image.wcs\<close>, goes through
  \<open>__setattr__\<close> and the setter of the property.
\<close>

definition Image_cutout :: "library \<Rightarrow> image \<Rightarrow> rat \<times> rat \<Rightarrow> rat \<times> rat \<Rightarrow> bool \<Rightarrow> error + image" where
  "Image_cutout lib self coords shape wcs =
     ebind (plain_getattribute self ''data'') (\<lambda>buf.
     ebind (if wcs then Image_getattribute lib self ''wcs'' else Inr VNone) (\<lambda>w.
     ebind (cutout2d lib buf coords shape w) (\<lambda>(new_data, new_wcs).
     ebind (plain_getattribute self ''_sources'') (\<lambda>srcs.
     ebind (cutout_sources lib srcs coords shape) (\<lambda>new_sources.
     ebind (plain_getattribute self ''metadata'') (\<lambda>metadata.
     ebind (plain_getattribute self ''computed'') (\<lambda>computed.
     ebind (Image_init new_data metadata computed) (\<lambda>image.
     ebind (plain_setattr image ''_sources'' (VList new_sources)) (\<lambda>image'.
     Image_setattr lib image' ''wcs'' new_wcs)))))))))"

text \<open>
  The recoordination as the specification words it, \<open>original - center + shape/2\<close>, taken
  axis by axis on the shape as given.
\<close>

definition recoordinate_as_stated :: "rat \<times> rat \<Rightarrow> rat \<times> rat \<Rightarrow> rat \<times> rat \<Rightarrow> rat \<times> rat" where
  "recoordinate_as_stated coords shape c =
     (fst c - fst coords + fst shape / 2, snd c - snd coords + snd shape / 2)"

section \<open>A library for the examples\<close>

text \<open>
  The getters as far as the source says what they do: \<open>shape\<close> reads \<open>self.data.shape\<close>
  (\<open>None\<close> has none; an array is a \<open>VList\<close> of rows), the quantities read
  \<open>metadata[name]\<close> and then \<open>metadata[name + "_unit"]\<close>, \<open>fov\<close> reads \<open>self.shape\<close> and
  then \<open>self.pixel_scale\<close>, \<open>date\<close> reads \<open>metadata["date"]\<close>, \<open>night_date\<close> reads
  \<open>self.date\<close>, \<open>wcs\<close> calls \<open>self.metadata.get\<close>, \<open>plate_solved\<close> reads \<open>self.wcs\<close>
  and \<open>skycoord\<close> reads \<open>self.ra\<close> and then \<open>self.dec\<close>. astropy and dateutil are taken to
  accept what the metadata holds, and a stored header to be celestial. An attribute read
  inside a getter falls back to \<open>__getattr__\<close> like any other.
\<close>

definition with_getattr :: "image \<Rightarrow> string \<Rightarrow> error + val \<Rightarrow> error + val" where
  "with_getattr d name r = (case r of Inl AttributeError \<Rightarrow> Image_getattr_hook d name | _ \<Rightarrow> r)"

definition shape_getter :: "image \<Rightarrow> error + val" where
  "shape_getter d =
     ebind (plain_getattribute d ''data'') (\<lambda>buf.
       case buf of
         VList (VList cells # rows) \<Rightarrow> Inr (VList [VInt (1 + int (length rows)), VInt (int (length cells))])
       | _ \<Rightarrow> Inl AttributeError)"

definition quantity_getter :: "image \<Rightarrow> string \<Rightarrow> error + val" where
  "quantity_getter d name =
     ebind (metadata_item d name) (\<lambda>v.
     ebind (metadata_item d (name @ ''_unit'')) (\<lambda>unit. Inr (VObject ''Quantity'')))"

definition date_getter :: "image \<Rightarrow> error + val" where
  "date_getter d = ebind (metadata_item d ''date'') (\<lambda>v. Inr (VObject ''datetime''))"

definition wcs_getter :: "image \<Rightarrow> error + val" where
  "wcs_getter d =
     ebind (plain_getattribute d ''metadata'') (\<lambda>m.
       case m of VDict kvs \<Rightarrow> Inr (VObject ''WCS'') | _ \<Rightarrow> Inl AttributeError)"

definition example_getter :: "string \<Rightarrow> image \<Rightarrow> error + val" where
  "example_getter name d =
     (if name = ''shape'' then shape_getter d
      else if name \<in> {''ra'', ''dec'', ''exposure'', ''pixel_scale''} then quantity_getter d name
      else if name = ''fov'' then
        ebind (with_getattr d ''shape'' (shape_getter d)) (\<lambda>s.
        ebind (with_getattr d ''pixel_scale'' (quantity_getter d ''pixel_scale'')) (\<lambda>p.
          Inr (VObject ''Quantity'')))
      else if name = ''date'' then date_getter d
      else if name = ''night_date'' then
        ebind (with_getattr d ''date'' (date_getter d)) (\<lambda>v. Inr (VObject ''date''))
      else if name = ''wcs'' then wcs_getter d
      else if name = ''plate_solved'' then
        ebind (with_getattr d ''wcs'' (wcs_getter d)) (\<lambda>w.
          case w of
            VObject n \<Rightarrow>
              ebind (plain_getattribute d ''metadata'') (\<lambda>m.
                case m of VDict kvs \<Rightarrow> Inr (VBool (map_of kvs ''wcs'' \<noteq> None))
                        | _ \<Rightarrow> Inl AttributeError)
          | _ \<Rightarrow> Inl AttributeError)
      else if name = ''skycoord'' then
        ebind (with_getattr d ''ra'' (quantity_getter d ''ra'')) (\<lambda>r.
        ebind (with_getattr d ''dec'' (quantity_getter d ''dec'')) (\<lambda>c.
          Inr (VObject ''SkyCoord'')))
      else Inl AttributeError)"

text \<open>
  Modelled from the spec: a \<open>Sources\<close> is stored as it is, and a list of coordinate pairs
  becomes the sources at these coordinates.
\<close>

definition example_to_sources :: "val \<Rightarrow> error + val" where
  "example_to_sources v =
     (case v of
        VList xs \<Rightarrow>
          if list_all is_source xs then Inr v
          else if list_all (\<lambda>x. case x of VList [VNum a, VNum b] \<Rightarrow> True | _ \<Rightarrow> False) xs
          then Inr (VList (map (\<lambda>x. case x of VList [VNum a, VNum b] \<Rightarrow> VSource (a, b) [] | _ \<Rightarrow> x) xs))
          else Inl TypeError
      | _ \<Rightarrow> Inl TypeError)"

definition example_wcs_header :: "val \<Rightarrow> error + val option" where
  "example_wcs_header w = (if w = VObject ''WCS'' then Inr (Some (VObject ''header'')) else Inr None)"

text \<open>
  \<open>Cutout2D(data, position, size, wcs=w, fill_value=np.nan, mode="partial")\<close>, after
  astropy's \<open>extract_array\<close>: the size is rounded to integers (halves to the even one); the
  window starts at row \<open>ceil(y - ny / 2)\<close> and column \<open>ceil(x - nx / 2)\<close>; data that is
  no two-dimensional array and a window that does not meet the array raise \<open>ValueError\<close>;
  cells of the window outside the array are NaN. The WCS of the cutout is not looked into.
\<close>

definition round_half_even :: "rat \<Rightarrow> int" where
  "round_half_even q =
     (let f = \<lfloor>q\<rfloor>; r = q - of_int f
      in if r < 1 / 2 then f else if 1 / 2 < r then f + 1 else if even f then f else f + 1)"

definition buffer_shape :: "val \<Rightarrow> (int \<times> int) option" where
  "buffer_shape buf =
     (case buf of
        VList (VList cells # rows) \<Rightarrow>
          if list_all (\<lambda>r. case r of VList cs \<Rightarrow> length cs = length cells | _ \<Rightarrow> False) rows
          then Some (1 + int (length rows), int (length cells))
          else None
      | _ \<Rightarrow> None)"

definition pixel :: "val \<Rightarrow> int \<Rightarrow> int \<Rightarrow> val" where
  "pixel buf r c =
     (case buf of
        VList rows \<Rightarrow> (case rows ! nat r of VList cells \<Rightarrow> cells ! nat c | _ \<Rightarrow> VNaN)
      | _ \<Rightarrow> VNaN)"

definition window2d :: "val \<Rightarrow> rat \<times> rat \<Rightarrow> rat \<times> rat \<Rightarrow> val \<Rightarrow> error + val \<times> val" where
  "window2d buf position extent w =
     (case buffer_shape buf of
        None \<Rightarrow> Inl (ValueError ''dimensions'')
      | Some (rows, cols) \<Rightarrow>
          (let ny = round_half_even (fst extent); nx = round_half_even (snd extent);
               ymin = \<lceil>snd position - of_int ny / 2\<rceil>; xmin = \<lceil>fst position - of_int nx / 2\<rceil>
           in if ny \<le> 0 \<or> nx \<le> 0 then Inl (ValueError ''size'')
              else if ymin + ny < 0 \<or> xmin + nx < 0 \<or> rows \<le> ymin \<or> cols \<le> xmin
              then Inl (ValueError ''Arrays do not overlap.'')
              else ebind (case w of
                            VNone \<Rightarrow> Inr VNone
                          | VObject n \<Rightarrow> Inr (VObject n)
                          | _ \<Rightarrow> Inl AttributeError) (\<lambda>new_wcs.
                     Inr (VList (map (\<lambda>r. VList (map (\<lambda>c.
                            if 0 \<le> r \<and> r < rows \<and> 0 \<le> c \<and> c < cols then pixel buf r c else VNaN)
                            [xmin..xmin + nx - 1])) [ymin..ymin + ny - 1]), new_wcs))))"

text \<open>
  The library of the examples. Its numbers are integers and halves of small size, on
  which the subtraction and the addition of doubles are exact.
\<close>

definition example_library :: library where
  "example_library =
     \<lparr>getter = example_getter, to_sources = example_to_sources, wcs_header = example_wcs_header,
      cutout2d = window2d, fsub = (\<lambda>a b. a - b), fadd = (\<lambda>a b. a + b)\<rparr>"

text \<open>
  An image of 20 rows and 20 columns with three sources, and an image whose metadata
  holds a Julian date.
\<close>

definition star_image :: image where
  "star_image =
     AList.update ''data'' (VList (replicate 20 (VList (replicate 20 (VNum 0)))))
       (AList.update ''_sources''
          (VList [VSource (10, 10) [], VSource (23 / 2, 10) [], VSource (10, 23 / 2) []])
          new_image)"


section \<open>Properties\<close>

subsection \<open>Input validation and the image count\<close>

lemma run_images_count:
  "run_images ld telescope live i xs r = Inr r' \<Longrightarrow> r_n r' = r_n r + length xs"
proof (induction xs arbitrary: i r)
  case Nil
  then show ?case by simp
next
  case (Cons x xs)
  from Cons.prems obtain r1 where
    r1: "run_image ld telescope live i x r = Inr r1"
    and rest: "run_images ld telescope live (Suc i) xs r1 = Inr r'"
    by (auto split: sum.splits)
  from r1 have "r_n r1 = r_n r + 1"
    by (auto simp: run_image_def split: sum.splits prod.splits)
  with Cons.IH [OF rest] show ?case by simp
qed

lemma n_processed_store_blocks [simp]:
  "n_processed_images (store_blocks bs s) = n_processed_images s"
  by (simp add: store_blocks_def)

lemma Sequence_run_Done_count:
  assumes "Sequence_run self images sp live telescope tm = Done s t"
    and "validate_images (normalise_images images) = Inr xs"
  shows "n_processed_images s = Some (length xs)"
proof -
  from assms obtain r where
    r: "run_images (loader self) telescope live 0 xs
          \<lparr>r_blocks = blocks (self\<lparr>files_or_images := normalise_images images\<rparr>), r_n = 0,
           r_last = last_image self, r_discards = [], r_console = [], r_events = []\<rparr> = Inr r"
    and n: "n_processed_images s = Some (r_n r)"
    by (auto simp: Sequence_run_def Let_def split: sum.splits if_splits prod.splits)
  from run_images_count [OF r] n show ?thesis by simp
qed

lemma abc_scenario:
  "(case Sequence_run abc_sequence (PyList (replicate 5 (Img new_image))) True False VNone True of
      Done s t \<Rightarrow>
        n_processed_images s = Some 5 \<and>
        console t = [BatchDiscard ''B'' [''1'', ''3'']] \<and>
        events t = [Ran 0 0 False, Ran 1 0 False, Ran 2 0 False, Ran 0 1 False, Ran 1 1 True,
                    Ran 0 2 False, Ran 1 2 False, Ran 2 2 False, Ran 0 3 False, Ran 1 3 True,
                    Ran 0 4 False, Ran 1 4 False, Ran 2 4 False,
                    Terminated 0, Terminated 1, Terminated 2]
    | _ \<Rightarrow> False)"
  by code_simp

text \<open>
  Claim C4, as the code has it. \<open>Sequence.run\<close> on an empty \<open>list\<close> or on \<open>None\<close>
  raises \<open>ValueError("No images to process")\<close> before any image is loaded or processed:
  the trace is empty and the sequence is as before the call, except that
  \<open>files_or_images\<close> holds the argument. On a non-empty list the validation raises
  nothing.
\<close>

theorem empty_input_abort:
  "(images = PyList [] \<or> images = PyNone \<longrightarrow>
      Sequence_run self images sp live telescope tm =
        Rejected (ValueError ''No images to process'') (self\<lparr>files_or_images := images\<rparr>)
          \<lparr>console = [], events = []\<rparr>) \<and>
   (xs \<noteq> [] \<longrightarrow> (\<forall>e s t. Sequence_run self (PyList xs) sp live telescope tm \<noteq> Rejected e s t))"
proof (intro conjI impI allI)
  assume "images = PyList [] \<or> images = PyNone"
  then show "Sequence_run self images sp live telescope tm =
        Rejected (ValueError ''No images to process'') (self\<lparr>files_or_images := images\<rparr>)
          \<lparr>console = [], events = []\<rparr>"
    by (auto simp: Sequence_run_def normalise_images_def validate_images_def)
next
  fix e s t
  assume "xs \<noteq> []"
  then show "Sequence_run self (PyList xs) sp live telescope tm \<noteq> Rejected e s t"
    by (auto simp: Sequence_run_def normalise_images_def validate_images_def Let_def
             split: sum.splits prod.splits)
qed

theorem empty_input_abort_witness:
  "Sequence_run abc_sequence (PyList []) True False VNone True =
     Rejected (ValueError ''No images to process'') (abc_sequence\<lparr>files_or_images := PyList []\<rparr>)
       \<lparr>console = [], events = []\<rparr> \<and>
   (case Sequence_run abc_sequence (PyList [Img new_image]) True False VNone True of
      Rejected e s t \<Rightarrow> False
    | _ \<Rightarrow> True)"
  using empty_input_abort [of "PyList []" abc_sequence True False VNone True "[Img new_image]"]
  by (simp split: outcome.splits)

text \<open>
  The claim as stated fails on an empty input that is no \<open>list\<close>: the validation of
  lines 57-61 tests \<open>isinstance(self.files_or_images, list)\<close>. On an empty tuple the run
  raises nothing: it returns with \<open>n_processed_images = 0\<close>, having called \<open>terminate\<close> on
  every block.
\<close>

theorem empty_input_abort_counterexample:
  "(case Sequence_run abc_sequence (PyIter []) True False VNone True of
      Done s t \<Rightarrow>
        n_processed_images s = Some 0 \<and> console t = [] \<and>
        events t = [Terminated 0, Terminated 1, Terminated 2]
    | _ \<Rightarrow> False)"
  by code_simp

text \<open>
  Claim C3. When \<open>Sequence.run\<close> returns on a non-empty list, \<open>n_processed_images\<close> is the
  number of inputs, whether or not blocks discarded images. With blocks A, B, C and five
  images, where B discards images 1 and 3, the run returns with \<open>n_processed_images = 5\<close>;
  images 0, 2 and 4 went through blocks 0, 1, 2 and images 1 and 3 through blocks 0, 1.
\<close>

theorem processed_images_count:
  "(xs \<noteq> [] \<longrightarrow> Sequence_run self (PyList xs) sp live telescope tm = Done s t \<longrightarrow>
      n_processed_images s = Some (length xs)) \<and>
   (case Sequence_run abc_sequence (PyList (replicate 5 (Img new_image))) True False VNone True of
      Done s' t' \<Rightarrow>
        n_processed_images s' = Some 5 \<and>
        blocks_run_on (events t') 0 = [0, 1, 2] \<and>
        blocks_run_on (events t') 1 = [0, 1] \<and>
        blocks_run_on (events t') 2 = [0, 1, 2] \<and>
        blocks_run_on (events t') 3 = [0, 1] \<and>
        blocks_run_on (events t') 4 = [0, 1, 2]
    | _ \<Rightarrow> False)"
proof (intro conjI impI)
  assume "xs \<noteq> []" and "Sequence_run self (PyList xs) sp live telescope tm = Done s t"
  then show "n_processed_images s = Some (length xs)"
    by (intro Sequence_run_Done_count [where images = "PyList xs"])
       (simp_all add: normalise_images_def validate_images_def)
next
  show "case Sequence_run abc_sequence (PyList (replicate 5 (Img new_image))) True False VNone True of
      Done s' t' \<Rightarrow>
        n_processed_images s' = Some 5 \<and>
        blocks_run_on (events t') 0 = [0, 1, 2] \<and>
        blocks_run_on (events t') 1 = [0, 1] \<and>
        blocks_run_on (events t') 2 = [0, 1, 2] \<and>
        blocks_run_on (events t') 3 = [0, 1] \<and>
        blocks_run_on (events t') 4 = [0, 1, 2]
    | _ \<Rightarrow> False"
    using abc_scenario by (simp split: outcome.splits add: blocks_run_on_def)
qed

theorem processed_images_count_witness:
  "(case Sequence_run abc_sequence (PyList (replicate 5 (Img new_image))) True False VNone True of
      Done s t \<Rightarrow> n_processed_images s = Some (length (replicate 5 (Img new_image)))
    | _ \<Rightarrow> False)"
proof (cases "Sequence_run abc_sequence (PyList (replicate 5 (Img new_image))) True False VNone True")
  case (Done s t)
  have "replicate 5 (Img new_image) \<noteq> []" by simp
  with Done processed_images_count [of "replicate 5 (Img new_image)" abc_sequence True False VNone True s t]
  show ?thesis by simp
next
  case (Rejected e s t)
  with abc_scenario show ?thesis by simp
next
  case (Aborted e)
  with abc_scenario show ?thesis by simp
qed

subsection \<open>The shape of a trace\<close>

text \<open>The three ways one turn of the loop over the blocks goes on.\<close>

lemma run_blocks_Cons_cases:
  assumes "run_blocks names live i b (blk # rest) st = Inr (bs', st')"
  obtains
    (ran) blk' img' rest' where
      "discard_flag (l_image st) = Inr False"
      "Block_run blk (l_image st) = Inr (blk', img')"
      "run_blocks names live i (Suc b) rest
         (st\<lparr>l_image := img',
             l_events := l_events st @ [Ran b i (discard_flag img' = Inr True)]\<rparr>) = Inr (rest', st')"
      "bs' = blk' # rest'"
  | (first_skip) lb rest' where
      "discard_flag (l_image st) = Inr True" "\<not> discard_message st"
      "py_index names (int b - 1) = Inr lb"
      "run_blocks names live i (Suc b) rest (note_discard live i lb st) = Inr (rest', st')"
      "bs' = blk # rest'"
  | (skip) rest' where
      "discard_flag (l_image st) = Inr True" "discard_message st"
      "run_blocks names live i (Suc b) rest st = Inr (rest', st')"
      "bs' = blk # rest'"
proof -
  from assms obtain disc where d: "discard_flag (l_image st) = Inr disc"
    by (cases "discard_flag (l_image st)") simp_all
  show thesis
  proof (cases disc)
    case False
    with assms d obtain blk' img' where br: "Block_run blk (l_image st) = Inr (blk', img')"
      by (cases "Block_run blk (l_image st)") auto
    with assms d False obtain rest' where
      "run_blocks names live i (Suc b) rest
         (st\<lparr>l_image := img',
             l_events := l_events st @ [Ran b i (discard_flag img' = Inr True)]\<rparr>) = Inr (rest', st')"
      "bs' = blk' # rest'"
      by (cases "run_blocks names live i (Suc b) rest
         (st\<lparr>l_image := img',
             l_events := l_events st @ [Ran b i (discard_flag img' = Inr True)]\<rparr>)") auto
    with d False br show thesis by (intro ran) simp_all
  next
    case True
    show thesis
    proof (cases "discard_message st")
      case dm: False
      with assms d True obtain lb where lb: "py_index names (int b - 1) = Inr lb"
        by (cases "py_index names (int b - 1)") auto
      with assms d True dm obtain rest' where
        "run_blocks names live i (Suc b) rest (note_discard live i lb st) = Inr (rest', st')"
        "bs' = blk # rest'"
        by (cases "run_blocks names live i (Suc b) rest (note_discard live i lb st)") auto
      with d True dm lb show thesis by (intro first_skip) simp_all
    next
      case dm: True
      with assms d True obtain rest' where
        "run_blocks names live i (Suc b) rest st = Inr (rest', st')" "bs' = blk # rest'"
        by (cases "run_blocks names live i (Suc b) rest st") auto
      with d True dm show thesis by (intro skip) simp_all
    qed
  qed
qed

lemma note_discard_fields [simp]:
  "l_image (note_discard live i lb st) = l_image st"
  "l_events (note_discard live i lb st) = l_events st"
  "discard_message (note_discard live i lb st) = True"
  "last_block (note_discard live i lb st) = Some lb"
  by (simp_all add: note_discard_def)

lemma run_blocks_length:
  "run_blocks names live i b bs st = Inr (bs', st') \<Longrightarrow> length bs' = length bs"
proof (induction bs arbitrary: b st bs' st')
  case Nil
  then show ?case by simp
next
  case (Cons blk rest)
  from Cons.prems show ?case
    by (cases rule: run_blocks_Cons_cases) (auto dest: Cons.IH)
qed

lemma run_blocks_no_terminate:
  "run_blocks names live i b bs st = Inr (bs', st') \<Longrightarrow>
     filter is_terminated (l_events st') = filter is_terminated (l_events st)"
proof (induction bs arbitrary: b st bs' st')
  case Nil
  then show ?case by simp
next
  case (Cons blk rest)
  from Cons.prems show ?case
  proof (cases rule: run_blocks_Cons_cases)
    case (ran blk' img' rest')
    from Cons.IH [OF ran(3)] show ?thesis by (simp add: is_terminated_def)
  next
    case (first_skip lb rest')
    from Cons.IH [OF first_skip(4)] show ?thesis by simp
  next
    case (skip rest')
    from Cons.IH [OF skip(3)] show ?thesis by simp
  qed
qed

lemma run_image_shape:
  assumes "run_image ld telescope live i it r = Inr r'"
  shows "length (r_blocks r') = length (r_blocks r)"
    and "filter is_terminated (r_events r') = filter is_terminated (r_events r)"
proof -
  from assms obtain img bs' st where
    rb: "run_blocks (map cls (r_blocks r)) live i 0 (r_blocks r)
           \<lparr>l_image = img, discard_message = False, last_block = None,
            discards = r_discards r, l_console = r_console r,
            l_events = r_events r @ load_events i it\<rparr> = Inr (bs', st)"
    and r': "r_blocks r' = bs'" "r_events r' = l_events st"
    by (auto simp: run_image_def split: sum.splits prod.splits)
  from run_blocks_length [OF rb] r' show "length (r_blocks r') = length (r_blocks r)"
    by simp
  from run_blocks_no_terminate [OF rb] r'
  show "filter is_terminated (r_events r') = filter is_terminated (r_events r)"
    by (simp add: load_events_def is_terminated_def split: item.splits)
qed

lemma run_images_shape:
  "run_images ld telescope live i xs r = Inr r' \<Longrightarrow>
     length (r_blocks r') = length (r_blocks r) \<and>
     filter is_terminated (r_events r') = filter is_terminated (r_events r)"
proof (induction xs arbitrary: i r)
  case Nil
  then show ?case by simp
next
  case (Cons x xs)
  from Cons.prems obtain r1 where
    r1: "run_image ld telescope live i x r = Inr r1"
    and rest: "run_images ld telescope live (Suc i) xs r1 = Inr r'"
    by (auto split: sum.splits)
  from Cons.IH [OF rest] run_image_shape [OF r1] show ?case by simp
qed

lemma terminate_blocks_shape:
  "terminate_blocks b bs evs = Inr (bs', evs') \<Longrightarrow>
     length bs' = length bs \<and> evs' = evs @ map Terminated [b..<b + length bs]"
proof (induction bs arbitrary: b evs bs' evs')
  case Nil
  then show ?case by simp
next
  case (Cons blk rest)
  from Cons.prems obtain blk' rest' where
    rec: "terminate_blocks (Suc b) rest (evs @ [Terminated b]) = Inr (rest', evs')"
    and bs': "bs' = blk' # rest'"
    by (auto split: sum.splits prod.splits)
  have "[b..<b + length (blk # rest)] = b # [Suc b..<Suc b + length rest]"
    using upt_conv_Cons [of b "b + length (blk # rest)"] by simp
  with Cons.IH [OF rec] bs' show ?case
    by simp
qed

lemma blocks_store_blocks:
  "length bs = length (blocks_dict s) \<Longrightarrow> blocks (store_blocks bs s) = bs"
  by (simp add: blocks_def store_blocks_def)

lemma Sequence_run_no_terminate:
  assumes "Sequence_run self images sp live telescope False = Done s t"
  shows "length (blocks s) = length (blocks self)"
    and "filter is_terminated (events t) = []"
proof -
  from assms obtain xs r where
    r: "run_images (loader self) telescope live 0 xs
          \<lparr>r_blocks = blocks self, r_n = 0, r_last = last_image self, r_discards = [],
           r_console = [], r_events = []\<rparr> = Inr r"
    and s: "s = store_blocks (r_blocks r)
                  (self\<lparr>files_or_images := normalise_images images,
                        n_processed_images := Some (r_n r), last_image := r_last r\<rparr>)"
    and t: "events t = r_events r"
    by (auto simp: Sequence_run_def Let_def blocks_def split: sum.splits prod.splits)
  from run_images_shape [OF r]
  have len: "length (r_blocks r) = length (blocks self)"
    and ev: "filter is_terminated (r_events r) = []"
    by simp_all
  from len have "length (r_blocks r) =
      length (blocks_dict (self\<lparr>files_or_images := normalise_images images,
                        n_processed_images := Some (r_n r), last_image := r_last r\<rparr>))"
    by (simp add: blocks_def)
  from blocks_store_blocks [OF this] s len show "length (blocks s) = length (blocks self)"
    by simp
  from ev t show "filter is_terminated (events t) = []" by simp
qed

lemma mp_images_shape:
  "mp_images ld bs pos xs dat tr = Inr (dat', tr') \<Longrightarrow>
     filter is_mp_terminated (mp_events tr') = filter is_mp_terminated (mp_events tr) \<and>
     map_option (\<lambda>ds. length (blocks ds)) dat' = map_option (\<lambda>ds. length (blocks ds)) dat"
proof (induction xs arbitrary: pos dat tr)
  case Nil
  then show ?case by simp
next
  case (Cons x xs)
  from Cons.prems obtain w where w: "run_all pos x bs ld = Inr w"
    by (auto split: sum.splits)
  have wev: "filter is_mp_terminated (map InWorker (w_events w)) = []"
  proof -
    have gen: "run_all_blocks ab p b rest st = Inr st' \<Longrightarrow>
        filter is_terminated (w_events st') = filter is_terminated (w_events st)"
      for ab p b rest and st st' :: "'a wstate"
    proof (induction rest arbitrary: b st)
      case Nil
      then show ?case by simp
    next
      case (Cons blk rest)
      from Cons.prems obtain disc where d: "discard_flag (w_image st) = Inr disc"
        by (cases "discard_flag (w_image st)") simp_all
      show ?case
      proof (cases disc)
        case False
        with Cons.prems d obtain blk' img' where
          "Block_run blk (w_image st) = Inr (blk', img')"
          by (cases "Block_run blk (w_image st)") auto
        with Cons.prems d False have
          "run_all_blocks ab p (Suc b) rest
             (st\<lparr>w_image := img',
                 w_events := w_events st @ [Ran b p (discard_flag img' = Inr True)]\<rparr>) = Inr st'"
          by simp
        from Cons.IH [OF this] show ?thesis by (simp add: is_terminated_def)
      next
        case True
        show ?thesis
        proof (cases "w_discard_message st")
          case dm: False
          with Cons.prems d True obtain lb where "py_index ab (int b - 1) = Inr lb"
            by (cases "py_index ab (int b - 1)") auto
          with Cons.prems d True dm have
            "run_all_blocks ab p (Suc b) rest
               (st\<lparr>w_last_block := Some lb, w_discard_message := True,
                   w_console := w_console st @ [WorkerDiscard (cls lb)]\<rparr>) = Inr st'"
            by simp
          from Cons.IH [OF this] show ?thesis by simp
        next
          case dm: True
          with Cons.prems d True have "run_all_blocks ab p (Suc b) rest st = Inr st'"
            by simp
          from Cons.IH [OF this] show ?thesis by simp
        qed
      qed
    qed
    from w have "filter is_terminated (w_events w) = []"
      by (auto simp: run_all_def load_events_def is_terminated_def
               split: sum.splits item.splits dest!: gen)
    then show ?thesis
      by (simp add: filter_map comp_def is_mp_terminated_def)
  qed
  show ?case
  proof (cases dat)
    case None
    with Cons.prems w have
      "mp_images ld bs (Suc pos) xs None
         \<lparr>mp_console = mp_console tr @ w_console w,
          mp_events = mp_events tr @ map InWorker (w_events w)\<rparr> = Inr (dat', tr')"
      by simp
    from Cons.IH [OF this] wev None show ?thesis by simp
  next
    case (Some ds)
    with Cons.prems w obtain ds' t where
      run: "Sequence_run ds (Single (Img (w_image w))) False False VNone False = Done ds' t"
      and rec: "mp_images ld bs (Suc pos) xs (Some ds')
         \<lparr>mp_console = mp_console tr @ w_console w @ map DataSeq (console t),
          mp_events = mp_events tr @ map InWorker (w_events w) @ map InData (events t)\<rparr>
         = Inr (dat', tr')"
      by (auto split: outcome.splits)
    from Sequence_run_no_terminate [OF run]
    have len: "length (blocks ds') = length (blocks ds)"
      and "filter is_terminated (events t) = []"
      by simp_all
    then have dev: "filter is_mp_terminated (map InData (events t)) = []"
      by (simp add: filter_map comp_def is_mp_terminated_def)
    from Cons.IH [OF rec] wev dev len Some show ?thesis by simp
  qed
qed

subsection \<open>The parallel sequence\<close>

text \<open>
  Claim C5. When the main chain of an \<open>MPSequence\<close> holds a \<open>DataBlock\<close>, \<open>run\<close> reports
  the classes of the data blocks and exits (\<open>sys.exit()\<close>): no call of a loader or of a
  block is made, and the object is as before the call.
\<close>

theorem data_block_guard:
  "(\<exists>b \<in> set (blocks self). is_data_block b) \<longrightarrow>
     MPSequence_run self images globals sp live tm =
       Rejected SystemExit self
         \<lparr>mp_console = [Coordinator (DataBlocksError (sort (remdups (bad_blocks self))))],
          mp_events = []\<rparr>"
proof
  assume "\<exists>b \<in> set (blocks self). is_data_block b"
  then have "filter is_data_block (blocks self) \<noteq> []"
    by (simp add: filter_empty_conv)
  then show "MPSequence_run self images globals sp live tm =
       Rejected SystemExit self
         \<lparr>mp_console = [Coordinator (DataBlocksError (sort (remdups (bad_blocks self))))],
          mp_events = []\<rparr>"
    by (simp add: MPSequence_run_def check_data_blocks_def bad_blocks_def)
qed

theorem data_block_guard_witness:
  "MPSequence_run mp_bad_example (PyList [Img new_image]) VNone True False True =
     Rejected SystemExit mp_bad_example
       \<lparr>mp_console = [Coordinator (DataBlocksError [''D''])], mp_events = []\<rparr>"
proof -
  have flags: "map is_data_block (blocks mp_bad_example) = [False, True]"
    by code_simp
  have "True \<in> set (map is_data_block (blocks mp_bad_example))"
    by (simp add: flags)
  then have ex: "\<exists>b \<in> set (blocks mp_bad_example). is_data_block b"
    by auto
  have names: "sort (remdups (bad_blocks mp_bad_example)) = [''D'']"
    by code_simp
  from data_block_guard [of mp_bad_example "PyList [Img new_image]" VNone True False True] ex names
  show ?thesis by simp
qed

lemma terminate_blocks_states:
  "terminate_blocks b bs evs = Inr (bs', evs') \<Longrightarrow>
     list_all2 (\<lambda>b0 bf. \<exists>st'. terminate b0 (state b0) = Inr st' \<and> bf = b0\<lparr>state := st'\<rparr>) bs bs'"
proof (induction bs arbitrary: b evs bs' evs')
  case Nil
  then show ?case by simp
next
  case (Cons blk rest)
  from Cons.prems obtain blk' rest' where
    bt: "Block_terminate blk = Inr blk'"
    and rec: "terminate_blocks (Suc b) rest (evs @ [Terminated b]) = Inr (rest', evs')"
    and bs': "bs' = blk' # rest'"
    by (auto split: sum.splits prod.splits)
  from bt have "\<exists>st'. terminate blk (state blk) = Inr st' \<and> blk' = blk\<lparr>state := st'\<rparr>"
    by (auto simp: Block_terminate_def split: sum.splits)
  with Cons.IH [OF rec] bs' show ?case by simp
qed

text \<open>
  Claim C9. When \<open>MPSequence.run\<close> returns with \<open>terminate=True\<close>, the \<open>terminate\<close> calls
  of its trace are those of the data sub-sequence, one for each of its blocks in order
  (none when there is no data sub-sequence); no worker calls \<open>terminate\<close> on a block of
  the main chain, and the main-chain blocks of the object are as before the call. The
  same call with \<open>terminate=False\<close> returns as well, and each block of the data
  sub-sequence ends as that call leaves it with its \<open>terminate\<close> applied once to its state.
\<close>

theorem parallel_terminate_asymmetry:
  "MPSequence_run self images globals sp live True = Done s t \<longrightarrow>
     filter is_mp_terminated (mp_events t) =
       (case data self of
          None \<Rightarrow> []
        | Some ds \<Rightarrow> map (\<lambda>j. InData (Terminated j)) [0..<length (blocks ds)]) \<and>
     blocks s = blocks self \<and>
     (\<exists>s0 t0. MPSequence_run self images globals sp live False = Done s0 t0 \<and>
        (case data s0 of
           None \<Rightarrow> data s = None
         | Some ds0 \<Rightarrow>
             (\<exists>dsf. data s = Some dsf \<and>
                list_all2 (\<lambda>b0 bf. \<exists>st'. terminate b0 (state b0) = Inr st' \<and>
                                      bf = b0\<lparr>state := st'\<rparr>)
                  (blocks ds0) (blocks dsf))))"
proof
  assume run: "MPSequence_run self images globals sp live True = Done s t"
  then obtain xs dat tr where
    v: "validate_images (normalise_images images) = Inr xs"
    and mp: "mp_images (loader self) (blocks self) 0 xs (data self)
           \<lparr>mp_console = [], mp_events = []\<rparr> = Inr (dat, tr)"
    and sp: "sp" and chk: "check_data_blocks self = None"
    by (auto simp: MPSequence_run_def Let_def blocks_def
             split: option.splits sum.splits prod.splits if_splits)
  let ?start = "self\<lparr>files_or_images := normalise_images images\<rparr>"
  have run0: "MPSequence_run self images globals sp live False =
      Done (?start\<lparr>n_processed_images := Some 0, data := dat\<rparr>) tr"
    using v mp sp chk by (simp add: MPSequence_run_def Let_def blocks_def)
  from mp_images_shape [OF mp]
  have ev: "filter is_mp_terminated (mp_events tr) = []"
    and len: "map_option (\<lambda>ds. length (blocks ds)) dat = map_option (\<lambda>ds. length (blocks ds)) (data self)"
    by simp_all
  have bl: "blocks s = blocks self"
    using run
    by (auto simp: MPSequence_run_def Let_def blocks_def
             split: option.splits sum.splits prod.splits if_splits)
  show "filter is_mp_terminated (mp_events t) =
       (case data self of
          None \<Rightarrow> []
        | Some ds \<Rightarrow> map (\<lambda>j. InData (Terminated j)) [0..<length (blocks ds)]) \<and>
     blocks s = blocks self \<and>
     (\<exists>s0 t0. MPSequence_run self images globals sp live False = Done s0 t0 \<and>
        (case data s0 of
           None \<Rightarrow> data s = None
         | Some ds0 \<Rightarrow>
             (\<exists>dsf. data s = Some dsf \<and>
                list_all2 (\<lambda>b0 bf. \<exists>st'. terminate b0 (state b0) = Inr st' \<and>
                                      bf = b0\<lparr>state := st'\<rparr>)
                  (blocks ds0) (blocks dsf))))"
  proof (cases dat)
    case None
    with run mp v sp chk have t: "t = tr" and ds: "data s = None"
      by (auto simp: MPSequence_run_def Let_def blocks_def)
    from t ev len None have
      "filter is_mp_terminated (mp_events t) =
         (case data self of
            None \<Rightarrow> []
          | Some ds \<Rightarrow> map (\<lambda>j. InData (Terminated j)) [0..<length (blocks ds)])"
      by (simp split: option.splits)
    moreover from run0 None ds have
      "\<exists>s0 t0. MPSequence_run self images globals sp live False = Done s0 t0 \<and>
        (case data s0 of
           None \<Rightarrow> data s = None
         | Some ds0 \<Rightarrow>
             (\<exists>dsf. data s = Some dsf \<and>
                list_all2 (\<lambda>b0 bf. \<exists>st'. terminate b0 (state b0) = Inr st' \<and>
                                      bf = b0\<lparr>state := st'\<rparr>)
                  (blocks ds0) (blocks dsf)))"
      by simp
    ultimately show ?thesis using bl by blast
  next
    case (Some ds')
    with run mp v sp chk obtain bs' evs where
      tb: "terminate_blocks 0 (blocks ds') [] = Inr (bs', evs)"
      and t: "mp_events t = mp_events tr @ map InData evs"
      and ds: "data s = Some (store_blocks bs' ds')"
      by (auto simp: MPSequence_run_def Let_def blocks_def
               split: sum.splits prod.splits)
    from terminate_blocks_shape [OF tb]
    have evs: "evs = map Terminated [0..<length (blocks ds')]"
      and lbs: "length bs' = length (blocks ds')"
      by simp_all
    from evs t ev have "filter is_mp_terminated (mp_events t) =
        map (\<lambda>j. InData (Terminated j)) [0..<length (blocks ds')]"
      by (simp add: filter_map comp_def is_mp_terminated_def is_terminated_def)
    with len Some have first:
      "filter is_mp_terminated (mp_events t) =
         (case data self of
            None \<Rightarrow> []
          | Some ds \<Rightarrow> map (\<lambda>j. InData (Terminated j)) [0..<length (blocks ds)])"
      by (auto split: option.splits)
    from lbs have "length bs' = length (blocks_dict ds')"
      by (simp add: blocks_def)
    from blocks_store_blocks [OF this] have "blocks (store_blocks bs' ds') = bs'" .
    with terminate_blocks_states [OF tb] have
      "list_all2 (\<lambda>b0 bf. \<exists>st'. terminate b0 (state b0) = Inr st' \<and> bf = b0\<lparr>state := st'\<rparr>)
         (blocks ds') (blocks (store_blocks bs' ds'))"
      by simp
    with run0 Some ds have
      "\<exists>s0 t0. MPSequence_run self images globals sp live False = Done s0 t0 \<and>
        (case data s0 of
           None \<Rightarrow> data s = None
         | Some ds0 \<Rightarrow>
             (\<exists>dsf. data s = Some dsf \<and>
                list_all2 (\<lambda>b0 bf. \<exists>st'. terminate b0 (state b0) = Inr st' \<and>
                                      bf = b0\<lparr>state := st'\<rparr>)
                  (blocks ds0) (blocks dsf)))"
      by simp
    with first bl show ?thesis by blast
  qed
qed

theorem parallel_terminate_asymmetry_witness:
  "(case MPSequence_run mp_tally_example (PyList [Img new_image, Img new_image]) VNone True False True of
      Done s t \<Rightarrow>
        filter is_mp_terminated (mp_events t) = [InData (Terminated 0)] \<and>
        blocks s = blocks mp_tally_example \<and>
        map state (blocks s) = [0] \<and>
        (case data s of None \<Rightarrow> False | Some dsf \<Rightarrow> map state (blocks dsf) = [102]) \<and>
        (case MPSequence_run mp_tally_example (PyList [Img new_image, Img new_image]) VNone True False False of
           Done s0 t0 \<Rightarrow>
             (case data s0 of None \<Rightarrow> False | Some ds0 \<Rightarrow> map state (blocks ds0) = [2])
         | _ \<Rightarrow> False)
    | _ \<Rightarrow> False)"
proof (cases "MPSequence_run mp_tally_example (PyList [Img new_image, Img new_image]) VNone True False True")
  case (Done s t)
  have "(case data mp_tally_example of None \<Rightarrow> None | Some ds \<Rightarrow> Some (length (blocks ds))) = Some 1"
    by code_simp
  then obtain ds where d: "data mp_tally_example = Some ds" "length (blocks ds) = 1"
    by (auto split: option.splits)
  have states: "(case MPSequence_run mp_tally_example (PyList [Img new_image, Img new_image]) VNone True False True of
      Done s t \<Rightarrow>
        map state (blocks s) = [0] \<and>
        (case data s of None \<Rightarrow> False | Some dsf \<Rightarrow> map state (blocks dsf) = [102])
    | _ \<Rightarrow> False)"
    by code_simp
  have before: "(case MPSequence_run mp_tally_example (PyList [Img new_image, Img new_image]) VNone True False False of
           Done s0 t0 \<Rightarrow>
             (case data s0 of None \<Rightarrow> False | Some ds0 \<Rightarrow> map state (blocks ds0) = [2])
         | _ \<Rightarrow> False)"
    by code_simp
  from Done d parallel_terminate_asymmetry
         [of mp_tally_example "PyList [Img new_image, Img new_image]" VNone True False s t]
  have "filter is_mp_terminated (mp_events t) = [InData (Terminated 0)] \<and>
        blocks s = blocks mp_tally_example"
    by simp
  with Done states before show ?thesis by simp
next
  case (Rejected e s t)
  have "(case MPSequence_run mp_tally_example (PyList [Img new_image, Img new_image]) VNone True False True of
      Done s t \<Rightarrow> True | _ \<Rightarrow> False)"
    by code_simp
  with Rejected show ?thesis by simp
next
  case (Aborted e)
  have "(case MPSequence_run mp_tally_example (PyList [Img new_image, Img new_image]) VNone True False True of
      Done s t \<Rightarrow> True | _ \<Rightarrow> False)"
    by code_simp
  with Aborted show ?thesis by simp
qed

subsection \<open>Export and import\<close>

lemma update_fresh_key:
  "k \<notin> fst ` set al \<Longrightarrow> AList.update k v al = al @ [(k, v)]"
  by (induction al) auto

lemma foldl_update_fresh:
  "distinct (map fst acc @ map (\<lambda>(i, b). block_key i b) (enumerate n bs)) \<Longrightarrow>
     foldl (\<lambda>d (i, b). AList.update (block_key i b) b d) acc (enumerate n bs) =
       acc @ map (\<lambda>(i, b). (block_key i b, b)) (enumerate n bs)"
proof (induction bs arbitrary: n acc)
  case Nil
  then show ?case by simp
next
  case (Cons b bs)
  from Cons.prems have fresh: "block_key n b \<notin> fst ` set acc"
    by auto
  from Cons.prems have
    "distinct (map fst (acc @ [(block_key n b, b)]) @
               map (\<lambda>(i, b). block_key i b) (enumerate (Suc n) bs))"
    by auto
  from Cons.IH [OF this] fresh show ?case
    by (simp add: update_fresh_key)
qed

lemma blocks_Sequence_init:
  assumes "distinct (block_keys bs)"
  shows "blocks (Sequence_init bs nm ld) = bs"
proof -
  from assms have "distinct (map fst [] @ map (\<lambda>(i, b). block_key i b) (enumerate 0 bs))"
    by (simp add: block_keys_def)
  from foldl_update_fresh [OF this]
  have "set_blocks bs = map (\<lambda>(i, b). (block_key i b, b)) (enumerate 0 bs)"
    by (simp add: set_blocks_def)
  then have "map snd (set_blocks bs) = map snd (enumerate 0 bs)"
    by (simp add: comp_def case_prod_beta)
  then show ?thesis
    by (simp add: blocks_def Sequence_init_def)
qed

lemma block_keys_names:
  "map block_name bs' = map block_name bs \<Longrightarrow> block_keys bs' = block_keys bs"
proof -
  assume eq: "map block_name bs' = map block_name bs"
  then have len: "length bs' = length bs"
    by (rule map_eq_imp_length_eq)
  show ?thesis
  proof (rule nth_equalityI)
    show "length (block_keys bs') = length (block_keys bs)"
      using len by (simp add: block_keys_def)
  next
    fix i assume "i < length (block_keys bs')"
    then have i: "i < length bs'" "i < length bs"
      using len by (simp_all add: block_keys_def)
    from eq i have "block_name (bs' ! i) = block_name (bs ! i)"
      by (metis nth_map)
    with i show "block_keys bs' ! i = block_keys bs ! i"
      by (simp add: block_keys_def nth_enumerate_eq block_key_def)
  qed
qed

lemma descr_fields [simp]:
  "d_block (descr b) = cls b" "d_name (descr b) = block_name b"
  "d_args (descr b) = args b" "d_kwargs (descr b) = kwargs b"
  by (simp_all add: descr_def)

lemma build_blocks_descr:
  assumes "\<forall>b \<in> set bs. \<exists>b'. new (cls b) (args b) (kwargs b) = Inr b' \<and>
             cls b' = cls b \<and> args b' = args b \<and> kwargs b' = kwargs b"
  shows "\<exists>bs'. build_blocks new (map descr bs) = Inr bs' \<and> map descr bs' = map descr bs"
  using assms
proof (induction bs)
  case Nil
  then show ?case by simp
next
  case (Cons b bs)
  from Cons.prems obtain b' where
    b': "new (cls b) (args b) (kwargs b) = Inr b'" "cls b' = cls b" "args b' = args b"
        "kwargs b' = kwargs b"
    by auto
  from Cons obtain bs' where
    bs': "build_blocks new (map descr bs) = Inr bs'" "map descr bs' = map descr bs"
    by auto
  from b' have "descr (b'\<lparr>block_name := block_name b\<rparr>) = descr b"
    by (simp add: descr_def)
  with b' bs' show ?case
    by simp
qed

text \<open>
  Claim C8, as the code has it. When the class of each block of the sequence can be
  called again with the block's \<open>args\<close> and \<open>kwargs\<close> and gives a block of that class
  carrying them, and the keys the blocks get on reconstruction (the name, or
  \<open>block\<close> followed by the position for an unnamed block) are pairwise distinct, then
  \<open>Sequence.from_dicts(seq.as_dicts)\<close> returns a sequence with the same descriptors
  (class, name, args, kwargs) in the same order.
\<close>

theorem serialization_round_trip:
  "(\<forall>b \<in> set (blocks seq). \<exists>b'. new (cls b) (args b) (kwargs b) = Inr b' \<and>
        cls b' = cls b \<and> args b' = args b \<and> kwargs b' = kwargs b) \<and>
   distinct (block_keys (blocks seq)) \<longrightarrow>
   (\<exists>seq'. from_dicts new (as_dicts seq) = Inr seq' \<and> as_dicts seq' = as_dicts seq)"
proof
  assume hyp: "(\<forall>b \<in> set (blocks seq). \<exists>b'. new (cls b) (args b) (kwargs b) = Inr b' \<and>
        cls b' = cls b \<and> args b' = args b \<and> kwargs b' = kwargs b) \<and>
     distinct (block_keys (blocks seq))"
  then obtain bs' where
    bs': "build_blocks new (map descr (blocks seq)) = Inr bs'"
         "map descr bs' = map descr (blocks seq)"
    using build_blocks_descr [of "blocks seq" new] by blast
  from bs'(2) have "map (d_name \<circ> descr) bs' = map (d_name \<circ> descr) (blocks seq)"
    by (metis map_map)
  then have "map block_name bs' = map block_name (blocks seq)"
    by (simp add: comp_def)
  from block_keys_names [OF this] hyp have "distinct (block_keys bs')"
    by simp
  from blocks_Sequence_init [OF this]
  have "blocks (Sequence_init bs' [] Image_loader) = bs'" .
  with bs' show "\<exists>seq'. from_dicts new (as_dicts seq) = Inr seq' \<and> as_dicts seq' = as_dicts seq"
    by (simp add: from_dicts_def as_dicts_def)
qed

theorem serialization_round_trip_witness:
  "(case from_dicts plain_new (as_dicts abc_sequence) of
      Inr seq' \<Rightarrow> as_dicts seq' = as_dicts abc_sequence
    | Inl e \<Rightarrow> False)"
proof -
  have ctor: "\<forall>b \<in> set (blocks abc_sequence).
      \<exists>b'. plain_new (cls b) (args b) (kwargs b) = Inr b' \<and>
        cls b' = cls b \<and> args b' = args b \<and> kwargs b' = kwargs b"
    by (simp add: plain_new_def plain_block_def)
  have keys: "distinct (block_keys (blocks abc_sequence))"
    by code_simp
  from serialization_round_trip [of abc_sequence plain_new] ctor keys
  obtain seq' where "from_dicts plain_new (as_dicts abc_sequence) = Inr seq'"
    and "as_dicts seq' = as_dicts abc_sequence"
    by blast
  then show ?thesis by simp
qed

text \<open>
  The claim as stated fails on a sequence built from two blocks named \<open>block1\<close> and an
  unnamed third: it holds the second block and the third, under the keys \<open>block1\<close> and
  \<open>block2\<close>. Reconstructed from its descriptors, the unnamed block is at position 1 and
  gets the key \<open>block1\<close> as well: the sequence that comes back holds one block.
\<close>

theorem serialization_round_trip_counterexample:
  "map d_block (as_dicts renamed_sequence) = [''Y'', ''Z''] \<and>
   (case from_dicts plain_new (as_dicts renamed_sequence) of
      Inr seq' \<Rightarrow> map d_block (as_dicts seq') = [''Z'']
    | Inl e \<Rightarrow> False)"
  by code_simp

subsection \<open>Discarded images skip the remaining blocks\<close>

lemma run_blocks_skip_all:
  "discard_flag (l_image st) = Inr True \<Longrightarrow> discard_message st \<Longrightarrow>
     run_blocks names live i b bs st = Inr (bs, st)"
  by (induction bs arbitrary: b) simp_all

lemma run_blocks_discarded:
  assumes "discard_flag (l_image st) = Inr True"
    and "run_blocks names live i b bs st = Inr (bs', st')"
  shows "bs' = bs \<and> l_events st' = l_events st \<and> l_image st' = l_image st"
proof (cases bs)
  case Nil
  with assms show ?thesis by simp
next
  case (Cons blk rest)
  from assms(2) [unfolded Cons] show ?thesis
  proof (cases rule: run_blocks_Cons_cases)
    case (ran blk' img' rest')
    with assms(1) show ?thesis by simp
  next
    case (first_skip lb rest')
    from assms(1) have "run_blocks names live i (Suc b) rest (note_discard live i lb st) =
        Inr (rest, note_discard live i lb st)"
      by (intro run_blocks_skip_all) simp_all
    with first_skip(4) have "rest' = rest" and st': "st' = note_discard live i lb st"
      by simp_all
    with first_skip(5) Cons show ?thesis by simp
  next
    case (skip rest')
    with run_blocks_skip_all [OF assms(1) skip(2), of names live i "Suc b" rest] Cons
    show ?thesis by simp
  qed
qed

lemma run_blocks_events:
  "run_blocks names live i b bs st = Inr (bs', st') \<Longrightarrow>
     \<exists>evs. l_events st' = l_events st @ evs \<and>
       (\<forall>ev \<in> set evs. \<exists>b' d. ev = Ran b' i d \<and> b \<le> b' \<and> b' < b + length bs) \<and>
       (\<forall>k b' d. Ran k i True \<in> set evs \<longrightarrow> Ran b' i d \<in> set evs \<longrightarrow> b' \<le> k)"
proof (induction bs arbitrary: b st bs')
  case Nil
  then show ?case by simp
next
  case (Cons blk rest)
  from Cons.prems show ?case
  proof (cases rule: run_blocks_Cons_cases)
    case (ran blk' img' rest')
    let ?d = "discard_flag img' = Inr True"
    let ?st1 = "st\<lparr>l_image := img', l_events := l_events st @ [Ran b i ?d]\<rparr>"
    from Cons.IH [OF ran(3)] obtain evs1 where
      e1: "l_events st' = l_events ?st1 @ evs1"
      and r1: "\<forall>ev \<in> set evs1. \<exists>b' d. ev = Ran b' i d \<and> Suc b \<le> b' \<and> b' < Suc b + length rest"
      and o1: "\<forall>k b' d. Ran k i True \<in> set evs1 \<longrightarrow> Ran b' i d \<in> set evs1 \<longrightarrow> b' \<le> k"
      by blast
    have stop: "evs1 = []" if "?d"
    proof -
      from that have "discard_flag (l_image ?st1) = Inr True" by simp
      from run_blocks_discarded [OF this ran(3)] e1 show ?thesis by simp
    qed
    let ?evs = "Ran b i ?d # evs1"
    have "l_events st' = l_events st @ ?evs"
      using e1 by simp
    moreover have "\<forall>ev \<in> set ?evs. \<exists>b' d. ev = Ran b' i d \<and> b \<le> b' \<and> b' < b + length (blk # rest)"
      using r1 by fastforce
    moreover have "\<forall>k b' d. Ran k i True \<in> set ?evs \<longrightarrow> Ran b' i d \<in> set ?evs \<longrightarrow> b' \<le> k"
    proof (intro allI impI)
      fix k b' d
      assume k: "Ran k i True \<in> set ?evs" and b': "Ran b' i d \<in> set ?evs"
      show "b' \<le> k"
      proof (cases "?d")
        case True
        with stop k b' show ?thesis by simp
      next
        case False
        with k have kin: "Ran k i True \<in> set evs1" by auto
        with r1 have "Suc b \<le> k" by fastforce
        with b' kin o1 show ?thesis by auto
      qed
    qed
    ultimately show ?thesis by blast
  next
    case (first_skip lb rest')
    from run_blocks_discarded [OF first_skip(1) Cons.prems] show ?thesis by simp
  next
    case (skip rest')
    from run_blocks_discarded [OF skip(1) Cons.prems] show ?thesis by simp
  qed
qed

lemma run_image_events:
  assumes "run_image ld telescope live i it r = Inr r'"
  shows "\<exists>evs. r_events r' = r_events r @ evs \<and>
       (\<forall>ev \<in> set evs. ev = Loaded i \<or> (\<exists>b d. ev = Ran b i d \<and> b < length (r_blocks r))) \<and>
       (\<forall>k b' d. Ran k i True \<in> set evs \<longrightarrow> Ran b' i d \<in> set evs \<longrightarrow> b' \<le> k)"
proof -
  from assms obtain img bs' st where
    rb: "run_blocks (map cls (r_blocks r)) live i 0 (r_blocks r)
           \<lparr>l_image = img, discard_message = False, last_block = None,
            discards = r_discards r, l_console = r_console r,
            l_events = r_events r @ load_events i it\<rparr> = Inr (bs', st)"
    and r': "r_events r' = l_events st"
    by (auto simp: run_image_def split: sum.splits prod.splits)
  from run_blocks_events [OF rb] obtain evs where
    e: "l_events st = (r_events r @ load_events i it) @ evs"
    and r1: "\<forall>ev \<in> set evs. \<exists>b' d. ev = Ran b' i d \<and> 0 \<le> b' \<and> b' < 0 + length (r_blocks r)"
    and o1: "\<forall>k b' d. Ran k i True \<in> set evs \<longrightarrow> Ran b' i d \<in> set evs \<longrightarrow> b' \<le> k"
    by auto
  obtain pre where pre: "load_events i it = pre" "pre = [] \<or> pre = [Loaded i]"
    by (cases it) (simp_all add: load_events_def)
  have inner: "Ran c j d \<in> set evs" if "Ran c j d \<in> set (pre @ evs)" for c j d
    using that pre(2) by auto
  have "r_events r' = r_events r @ (pre @ evs)"
    using e r' pre(1) by simp
  moreover have "\<forall>ev \<in> set (pre @ evs). ev = Loaded i \<or> (\<exists>b d. ev = Ran b i d \<and> b < length (r_blocks r))"
  proof
    fix ev assume "ev \<in> set (pre @ evs)"
    then consider "ev = Loaded i" | "ev \<in> set evs"
      using pre(2) by auto
    then show "ev = Loaded i \<or> (\<exists>b d. ev = Ran b i d \<and> b < length (r_blocks r))"
    proof cases
      case 1
      then show ?thesis by simp
    next
      case 2
      with r1 obtain b' d where "ev = Ran b' i d" "b' < 0 + length (r_blocks r)"
        by blast
      then show ?thesis by simp
    qed
  qed
  moreover have "\<forall>k b' d. Ran k i True \<in> set (pre @ evs) \<longrightarrow> Ran b' i d \<in> set (pre @ evs) \<longrightarrow> b' \<le> k"
  proof (intro allI impI)
    fix k b' d
    assume "Ran k i True \<in> set (pre @ evs)" and "Ran b' i d \<in> set (pre @ evs)"
    then have "Ran k i True \<in> set evs" and "Ran b' i d \<in> set evs"
      by (simp_all only: inner)
    with o1 show "b' \<le> k" by blast
  qed
  ultimately show ?thesis by blast
qed

lemma ran_index_here:
  assumes s1: "\<forall>ev \<in> set e1. ev = Loaded i \<or> (\<exists>b d. ev = Ran b i d \<and> b < n)"
    and "Ran c j d' \<in> set e1"
  shows "j = i"
proof -
  from assms have "Ran c j d' = Loaded i \<or> (\<exists>b d. Ran c j d' = Ran b i d \<and> b < n)"
    by blast
  then show ?thesis by simp
qed
lemma ran_index_later:
  assumes s2: "\<forall>ev \<in> set e2. (\<exists>j. ev = Loaded j) \<or> (\<exists>b j d. ev = Ran b j d \<and> Suc i \<le> j)"
    and "Ran c j d' \<in> set e2"
  shows "Suc i \<le> j"
proof -
  from assms have "(\<exists>j'. Ran c j d' = Loaded j') \<or> (\<exists>b j' d. Ran c j d' = Ran b j' d \<and> Suc i \<le> j')"
    by blast
  then show ?thesis by simp
qed
lemma ran_pair_append:
  assumes a: "Ran k j True \<in> set (e1 @ e2)" and b: "Ran b' j d \<in> set (e1 @ e2)"
  shows "(Ran k j True \<in> set e1 \<and> Ran b' j d \<in> set e1) \<or>
      (Ran k j True \<in> set e2 \<and> Ran b' j d \<in> set e2) \<or>
      (Ran k j True \<in> set e1 \<and> Ran b' j d \<in> set e2) \<or>
      (Ran k j True \<in> set e2 \<and> Ran b' j d \<in> set e1)"
  using a b by auto
lemma events_indices_append:
  assumes s1: "\<forall>ev \<in> set e1. ev = Loaded i \<or> (\<exists>b d. ev = Ran b i d \<and> b < n)"
   and s2: "\<forall>ev \<in> set e2. (\<exists>j. ev = Loaded j) \<or> (\<exists>b j d. ev = Ran b j d \<and> Suc i \<le> j)"
  shows "\<forall>ev \<in> set (e1 @ e2). (\<exists>j. ev = Loaded j) \<or> (\<exists>b j d. ev = Ran b j d \<and> i \<le> j)"
proof
  fix ev assume "ev \<in> set (e1 @ e2)"
  then consider "ev \<in> set e1" | "ev \<in> set e2" by auto
  then show "(\<exists>j. ev = Loaded j) \<or> (\<exists>b j d. ev = Ran b j d \<and> i \<le> j)"
  proof cases
    case 1
    with s1 have "ev = Loaded i \<or> (\<exists>b d. ev = Ran b i d \<and> b < n)" by blast
    then show ?thesis by auto
  next
    case 2
    with s2 have "(\<exists>j. ev = Loaded j) \<or> (\<exists>b j d. ev = Ran b j d \<and> Suc i \<le> j)" by blast
    then show ?thesis by (auto intro: Suc_leD)
  qed
qed

lemma run_images_events:
  "run_images ld telescope live i xs r = Inr r' \<Longrightarrow>
     \<exists>evs. r_events r' = r_events r @ evs \<and>
       (\<forall>ev \<in> set evs. (\<exists>j. ev = Loaded j) \<or> (\<exists>b j d. ev = Ran b j d \<and> i \<le> j)) \<and>
       (\<forall>k j b' d. Ran k j True \<in> set evs \<longrightarrow> Ran b' j d \<in> set evs \<longrightarrow> b' \<le> k)"
proof (induction xs arbitrary: i r)
  case Nil
  then show ?case by simp
next
  case (Cons x xs)
  from Cons.prems obtain r1 where
    r1: "run_image ld telescope live i x r = Inr r1"
    and rest: "run_images ld telescope live (Suc i) xs r1 = Inr r'"
    by (auto split: sum.splits)
  from run_image_events [OF r1] obtain e1 where
    e1: "r_events r1 = r_events r @ e1"
    and s1: "\<forall>ev \<in> set e1. ev = Loaded i \<or> (\<exists>b d. ev = Ran b i d \<and> b < length (r_blocks r))"
    and o1: "\<forall>k b' d. Ran k i True \<in> set e1 \<longrightarrow> Ran b' i d \<in> set e1 \<longrightarrow> b' \<le> k"
    by blast
  from Cons.IH [OF rest] obtain e2 where
    e2: "r_events r' = r_events r1 @ e2"
    and s2: "\<forall>ev \<in> set e2. (\<exists>j. ev = Loaded j) \<or> (\<exists>b j d. ev = Ran b j d \<and> Suc i \<le> j)"
    and o2: "\<forall>k j b' d. Ran k j True \<in> set e2 \<longrightarrow> Ran b' j d \<in> set e2 \<longrightarrow> b' \<le> k"
    by blast
  have "r_events r' = r_events r @ (e1 @ e2)"
    using e1 e2 by simp
  moreover have "\<forall>ev \<in> set (e1 @ e2). (\<exists>j. ev = Loaded j) \<or> (\<exists>b j d. ev = Ran b j d \<and> i \<le> j)"
    using s1 s2 by (rule events_indices_append)
  moreover have "\<forall>k j b' d. Ran k j True \<in> set (e1 @ e2) \<longrightarrow> Ran b' j d \<in> set (e1 @ e2) \<longrightarrow> b' \<le> k"
  proof (intro allI impI)
    fix k j b' d
    assume a: "Ran k j True \<in> set (e1 @ e2)" and b: "Ran b' j d \<in> set (e1 @ e2)"
    have in1: "j = i" if "Ran c j d' \<in> set e1" for c d'
      using s1 that by (rule ran_index_here)
    have in2: "Suc i \<le> j" if "Ran c j d' \<in> set e2" for c d'
      using s2 that by (rule ran_index_later)
    from ran_pair_append [OF a b] consider
      "Ran k j True \<in> set e1" "Ran b' j d \<in> set e1"
      | "Ran k j True \<in> set e2" "Ran b' j d \<in> set e2"
      | "Ran k j True \<in> set e1" "Ran b' j d \<in> set e2"
      | "Ran k j True \<in> set e2" "Ran b' j d \<in> set e1"
      by blast
    then show "b' \<le> k"
    proof cases
      case 1
      from in1 [OF 1(1)] 1 o1 show ?thesis by blast
    next
      case 2
      with o2 show ?thesis by blast
    next
      case 3
      with in1 [OF 3(1)] in2 [OF 3(2)] show ?thesis by simp
    next
      case 4
      with in1 [OF 4(2)] in2 [OF 4(1)] show ?thesis by simp
    qed
  qed
  ultimately show ?case by blast
qed

lemma Sequence_run_discard_stops:
  assumes "Sequence_run self images sp live telescope tm = Done s t"
    and "Ran k i True \<in> set (events t)" and "Ran b i d \<in> set (events t)"
  shows "b \<le> k"
proof -
  from assms(1) obtain xs r where
    r: "run_images (loader self) telescope live 0 xs
          \<lparr>r_blocks = blocks self, r_n = 0, r_last = last_image self, r_discards = [],
           r_console = [], r_events = []\<rparr> = Inr r"
    and t: "events t = r_events r \<or>
            (\<exists>bs'. terminate_blocks 0 (r_blocks r) (r_events r) = Inr (bs', events t))"
    by (auto simp: Sequence_run_def Let_def blocks_def split: sum.splits prod.splits if_splits)
  from run_images_events [OF r] have
    o: "\<forall>k j b' d. Ran k j True \<in> set (r_events r) \<longrightarrow> Ran b' j d \<in> set (r_events r) \<longrightarrow> b' \<le> k"
    by simp
  from t have "\<exists>n. events t = r_events r @ map Terminated n"
  proof
    assume "events t = r_events r"
    then have "events t = r_events r @ map Terminated []" by simp
    then show ?thesis ..
  next
    assume "\<exists>bs'. terminate_blocks 0 (r_blocks r) (r_events r) = Inr (bs', events t)"
    then show ?thesis by (auto dest!: terminate_blocks_shape)
  qed
  then obtain n where "events t = r_events r @ map Terminated n" ..
  with assms(2,3) have "Ran k i True \<in> set (r_events r)" "Ran b i d \<in> set (r_events r)"
    by auto
  with o show ?thesis by blast
qed

subsection \<open>The first blocks do not depend on the later ones\<close>

lemma run_blocks_ranI:
  "discard_flag (l_image st) = Inr False \<Longrightarrow> Block_run blk (l_image st) = Inr (blk', img') \<Longrightarrow>
   run_blocks names live i (Suc b) rest
     (st\<lparr>l_image := img',
         l_events := l_events st @ [Ran b i (discard_flag img' = Inr True)]\<rparr>) = Inr (rest', st') \<Longrightarrow>
   run_blocks names live i b (blk # rest) st = Inr (blk' # rest', st')"
  by simp

lemma run_blocks_first_skipI:
  "discard_flag (l_image st) = Inr True \<Longrightarrow> \<not> discard_message st \<Longrightarrow>
   py_index names (int b - 1) = Inr lb \<Longrightarrow>
   run_blocks names live i (Suc b) rest (note_discard live i lb st) = Inr (rest', st') \<Longrightarrow>
   run_blocks names live i b (blk # rest) st = Inr (blk # rest', st')"
  by simp

lemma run_blocks_skipI:
  "discard_flag (l_image st) = Inr True \<Longrightarrow> discard_message st \<Longrightarrow>
   run_blocks names live i (Suc b) rest st = Inr (rest', st') \<Longrightarrow>
   run_blocks names live i b (blk # rest) st = Inr (blk # rest', st')"
  by simp

lemma run_blocks_append:
  "run_blocks names live i b (xs @ ys) st = Inr (bs', st') \<Longrightarrow>
     \<exists>xs' ys' st1. run_blocks names live i b xs st = Inr (xs', st1) \<and>
       run_blocks names live i (b + length xs) ys st1 = Inr (ys', st') \<and> bs' = xs' @ ys'"
proof (induction xs arbitrary: b st bs')
  case Nil
  then show ?case by simp
next
  case (Cons blk xs)
  from Cons.prems have run: "run_blocks names live i b (blk # (xs @ ys)) st = Inr (bs', st')"
    by simp
  from run show ?case
  proof (cases rule: run_blocks_Cons_cases)
    case (ran blk' img' rest')
    from Cons.IH [OF ran(3)] obtain xs' ys' st1 where
      a: "run_blocks names live i (Suc b) xs
            (st\<lparr>l_image := img',
                l_events := l_events st @ [Ran b i (discard_flag img' = Inr True)]\<rparr>) = Inr (xs', st1)"
      and b: "run_blocks names live i (Suc b + length xs) ys st1 = Inr (ys', st')"
      and c: "rest' = xs' @ ys'"
      by blast
    from run_blocks_ranI [OF ran(1) ran(2) a] b c ran(4) show ?thesis by simp
  next
    case (first_skip lb rest')
    from Cons.IH [OF first_skip(4)] obtain xs' ys' st1 where
      a: "run_blocks names live i (Suc b) xs (note_discard live i lb st) = Inr (xs', st1)"
      and b: "run_blocks names live i (Suc b + length xs) ys st1 = Inr (ys', st')"
      and c: "rest' = xs' @ ys'"
      by blast
    from run_blocks_first_skipI [OF first_skip(1) first_skip(2) first_skip(3) a] b c first_skip(5)
    show ?thesis by simp
  next
    case (skip rest')
    from Cons.IH [OF skip(3)] obtain xs' ys' st1 where
      a: "run_blocks names live i (Suc b) xs st = Inr (xs', st1)"
      and b: "run_blocks names live i (Suc b + length xs) ys st1 = Inr (ys', st')"
      and c: "rest' = xs' @ ys'"
      by blast
    from run_blocks_skipI [OF skip(1) skip(2) a] b c skip(4) show ?thesis by simp
  qed
qed

lemma py_index_previous:
  "b < length names \<Longrightarrow> \<exists>lb. py_index names (int b - 1) = Inr lb"
  by (cases b) (simp_all add: py_index_def Let_def)

text \<open>
  Two runs of the loop over the same blocks, from states that agree on the image and on
  \<open>discard_message\<close>, make the same calls, whatever the table of names and the report.
\<close>

lemma run_blocks_simulation:
  "run_blocks names live i b xs st = Inr (xs', st') \<Longrightarrow>
   l_image st0 = l_image st \<Longrightarrow> discard_message st0 = discard_message st \<Longrightarrow>
   b + length xs \<le> length names0 \<Longrightarrow>
     \<exists>st0' evs. run_blocks names0 live i b xs st0 = Inr (xs', st0') \<and>
       l_image st0' = l_image st' \<and> discard_message st0' = discard_message st' \<and>
       l_events st' = l_events st @ evs \<and> l_events st0' = l_events st0 @ evs"
proof (induction xs arbitrary: b st st0 xs')
  case Nil
  then show ?case by simp
next
  case (Cons blk xs)
  from Cons.prems(4) have len: "Suc b + length xs \<le> length names0" and b: "b < length names0"
    by simp_all
  from Cons.prems(1) show ?case
  proof (cases rule: run_blocks_Cons_cases)
    case (ran blk' img' rest')
    let ?ev = "Ran b i (discard_flag img' = Inr True)"
    let ?full = "st\<lparr>l_image := img', l_events := l_events st @ [?ev]\<rparr>"
    let ?pre = "st0\<lparr>l_image := img', l_events := l_events st0 @ [?ev]\<rparr>"
    have "l_image ?pre = l_image ?full" "discard_message ?pre = discard_message ?full"
      using Cons.prems(3) by simp_all
    from Cons.IH [OF ran(3) this len] obtain st0' evs where
      a: "run_blocks names0 live i (Suc b) xs ?pre = Inr (rest', st0')"
      and r: "l_image st0' = l_image st'" "discard_message st0' = discard_message st'"
      and e: "l_events st' = l_events ?full @ evs" "l_events st0' = l_events ?pre @ evs"
      by blast
    from ran(1,2) Cons.prems(2) have
      "discard_flag (l_image st0) = Inr False" "Block_run blk (l_image st0) = Inr (blk', img')"
      by simp_all
    from run_blocks_ranI [OF this a] ran(4)
    have "run_blocks names0 live i b (blk # xs) st0 = Inr (xs', st0')" by simp
    moreover from e have "l_events st' = l_events st @ (?ev # evs)"
      "l_events st0' = l_events st0 @ (?ev # evs)" by simp_all
    ultimately show ?thesis using r by blast
  next
    case (first_skip lb rest')
    from py_index_previous [OF b] obtain lb0 where lb0: "py_index names0 (int b - 1) = Inr lb0" ..
    let ?full = "note_discard live i lb st"
    let ?pre = "note_discard live i lb0 st0"
    have "l_image ?pre = l_image ?full" "discard_message ?pre = discard_message ?full"
      using Cons.prems(2) by simp_all
    from Cons.IH [OF first_skip(4) this len] obtain st0' evs where
      a: "run_blocks names0 live i (Suc b) xs ?pre = Inr (rest', st0')"
      and r: "l_image st0' = l_image st'" "discard_message st0' = discard_message st'"
      and e: "l_events st' = l_events ?full @ evs" "l_events st0' = l_events ?pre @ evs"
      by blast
    from first_skip(1,2) Cons.prems(2,3) have
      "discard_flag (l_image st0) = Inr True" "\<not> discard_message st0"
      by simp_all
    from run_blocks_first_skipI [OF this lb0 a] first_skip(5)
    have "run_blocks names0 live i b (blk # xs) st0 = Inr (xs', st0')" by simp
    moreover from e have "l_events st' = l_events st @ evs" "l_events st0' = l_events st0 @ evs"
      by simp_all
    ultimately show ?thesis using r by blast
  next
    case (skip rest')
    from Cons.IH [OF skip(3) Cons.prems(2) Cons.prems(3) len] obtain st0' evs where
      a: "run_blocks names0 live i (Suc b) xs st0 = Inr (rest', st0')"
      and r: "l_image st0' = l_image st'" "discard_message st0' = discard_message st'"
      and e: "l_events st' = l_events st @ evs" "l_events st0' = l_events st0 @ evs"
      by blast
    from skip(1,2) Cons.prems(2,3) have
      "discard_flag (l_image st0) = Inr True" "discard_message st0"
      by simp_all
    from run_blocks_skipI [OF this a] skip(4)
    have "run_blocks names0 live i b (blk # xs) st0 = Inr (xs', st0')" by simp
    with r e show ?thesis by blast
  qed
qed

lemma filter_below_ran:
  assumes "\<forall>ev \<in> set evs. \<exists>b' d. ev = Ran b' i d \<and> lo \<le> b' \<and> b' < hi"
  shows "hi \<le> k \<Longrightarrow> filter (block_below k) evs = evs"
    and "k \<le> lo \<Longrightarrow> filter (block_below k) evs = []"
proof -
  assume "hi \<le> k"
  have "\<forall>ev \<in> set evs. block_below k ev"
  proof
    fix ev assume "ev \<in> set evs"
    with assms obtain b' d where "ev = Ran b' i d" "b' < hi" by blast
    with \<open>hi \<le> k\<close> show "block_below k ev" by (simp add: block_below_def)
  qed
  then show "filter (block_below k) evs = evs" by (simp add: filter_id_conv)
next
  assume "k \<le> lo"
  have "\<forall>ev \<in> set evs. \<not> block_below k ev"
  proof
    fix ev assume "ev \<in> set evs"
    with assms obtain b' d where "ev = Ran b' i d" "lo \<le> b'" by blast
    with \<open>k \<le> lo\<close> show "\<not> block_below k ev" by (simp add: block_below_def)
  qed
  then show "filter (block_below k) evs = []" by (simp add: filter_empty_conv)
qed

lemma run_blocks_prefix:
  assumes run: "run_blocks names live i 0 bs st = Inr (bs', st')"
    and img: "l_image st0 = l_image st" and dm: "discard_message st0 = discard_message st"
    and ev: "l_events st0 = filter (block_below k) (l_events st)"
    and len: "length names0 = length (take k bs)"
  shows "\<exists>st0'. run_blocks names0 live i 0 (take k bs) st0 = Inr (take k bs', st0') \<and>
           l_events st0' = filter (block_below k) (l_events st')"
proof -
  let ?xs = "take k bs" and ?ys = "drop k bs"
  from run have "run_blocks names live i 0 (?xs @ ?ys) st = Inr (bs', st')" by simp
  from run_blocks_append [OF this] obtain xs' ys' st1 where
    a: "run_blocks names live i 0 ?xs st = Inr (xs', st1)"
    and b: "run_blocks names live i (0 + length ?xs) ?ys st1 = Inr (ys', st')"
    and c: "bs' = xs' @ ys'"
    by blast
  from run_blocks_length [OF a] run_blocks_length [OF b] c
  have tk: "take k bs' = xs'"
    by (cases "k \<le> length bs") simp_all
  from len have "0 + length ?xs \<le> length names0" by simp
  from run_blocks_simulation [OF a img dm this] obtain st0' evs where
    s: "run_blocks names0 live i 0 ?xs st0 = Inr (xs', st0')"
    and e1: "l_events st1 = l_events st @ evs" and e0: "l_events st0' = l_events st0 @ evs"
    by blast
  from run_blocks_events [OF a] e1 have
    ra: "\<forall>ev \<in> set evs. \<exists>b' d. ev = Ran b' i d \<and> 0 \<le> b' \<and> b' < 0 + length ?xs"
    by auto
  have "0 + length ?xs \<le> k" by simp
  from filter_below_ran(1) [OF ra this] have fa: "filter (block_below k) evs = evs" .
  from run_blocks_events [OF b] obtain evs2 where
    e2: "l_events st' = l_events st1 @ evs2"
    and rb: "\<forall>ev \<in> set evs2. \<exists>b' d. ev = Ran b' i d \<and> 0 + length ?xs \<le> b' \<and>
               b' < 0 + length ?xs + length ?ys"
    by blast
  have fb: "filter (block_below k) evs2 = []"
  proof (cases "k \<le> length bs")
    case True
    then have "k \<le> 0 + length ?xs" by simp
    from filter_below_ran(2) [OF rb this] show ?thesis .
  next
    case False
    then have "length ?ys = 0" by simp
    with rb have "\<forall>ev \<in> set evs2. False" by fastforce
    then have "evs2 = []" by auto
    then show ?thesis by simp
  qed
  from e0 e1 e2 ev fa fb have "l_events st0' = filter (block_below k) (l_events st')"
    by simp
  with s tk show ?thesis by simp
qed

lemma filter_below_load_events [simp]:
  "filter (block_below k) (load_events i it) = load_events i it"
  by (cases it) (simp_all add: load_events_def block_below_def)

lemma run_image_prefix:
  assumes run: "run_image ld telescope live i it r = Inr r'"
    and bl: "r_blocks r0 = take k (r_blocks r)"
    and ev: "r_events r0 = filter (block_below k) (r_events r)"
  shows "\<exists>r0'. run_image ld telescope live i it r0 = Inr r0' \<and>
           r_blocks r0' = take k (r_blocks r') \<and>
           r_events r0' = filter (block_below k) (r_events r')"
proof -
  from run obtain img0 img bs' st where
    l: "load_item ld telescope it = Inr img0"
    and sa: "plain_setattr img0 ''i'' (VInt (int i)) = Inr img"
    and rb: "run_blocks (map cls (r_blocks r)) live i 0 (r_blocks r)
           \<lparr>l_image = img, discard_message = False, last_block = None,
            discards = r_discards r, l_console = r_console r,
            l_events = r_events r @ load_events i it\<rparr> = Inr (bs', st)"
    and r': "r_blocks r' = bs'" "r_events r' = l_events st"
    by (auto simp: run_image_def split: sum.splits prod.splits)
  let ?start = "\<lparr>l_image = img, discard_message = False, last_block = None,
            discards = r_discards r0, l_console = r_console r0,
            l_events = r_events r0 @ load_events i it\<rparr>"
  have "\<exists>st0'. run_blocks (map cls (take k (r_blocks r))) live i 0 (take k (r_blocks r)) ?start
            = Inr (take k bs', st0') \<and>
          l_events st0' = filter (block_below k) (l_events st)"
    by (rule run_blocks_prefix [OF rb]) (simp_all add: ev)
  then obtain st0' where
    s: "run_blocks (map cls (take k (r_blocks r))) live i 0 (take k (r_blocks r)) ?start
            = Inr (take k bs', st0')"
    and e: "l_events st0' = filter (block_below k) (l_events st)"
    by blast
  from l sa s bl have "run_image ld telescope live i it r0 =
      Inr \<lparr>r_blocks = take k bs', r_n = r_n r0 + 1, r_last = Some (l_image st0'),
           r_discards = discards st0', r_console = l_console st0', r_events = l_events st0'\<rparr>"
    by (simp add: run_image_def)
  with e r' show ?thesis by simp
qed

lemma run_images_prefix:
  "run_images ld telescope live i xs r = Inr r' \<Longrightarrow>
   r_blocks r0 = take k (r_blocks r) \<Longrightarrow>
   r_events r0 = filter (block_below k) (r_events r) \<Longrightarrow>
     \<exists>r0'. run_images ld telescope live i xs r0 = Inr r0' \<and>
       r_blocks r0' = take k (r_blocks r') \<and>
       r_events r0' = filter (block_below k) (r_events r')"
proof (induction xs arbitrary: i r r0)
  case Nil
  then show ?case by simp
next
  case (Cons x xs)
  from Cons.prems(1) obtain r1 where
    r1: "run_image ld telescope live i x r = Inr r1"
    and rest: "run_images ld telescope live (Suc i) xs r1 = Inr r'"
    by (auto split: sum.splits)
  from run_image_prefix [OF r1 Cons.prems(2) Cons.prems(3)] obtain r01 where
    a: "run_image ld telescope live i x r0 = Inr r01"
    and b: "r_blocks r01 = take k (r_blocks r1)"
    and c: "r_events r01 = filter (block_below k) (r_events r1)"
    by blast
  from Cons.IH [OF rest b c] a show ?case by simp
qed

lemma terminate_blocks_prefix:
  "terminate_blocks b bs evs = Inr (bs', evs') \<Longrightarrow>
     terminate_blocks b (take m bs) evs0 =
       Inr (take m bs', evs0 @ map Terminated [b..<b + min m (length bs)])"
proof (induction bs arbitrary: b m evs evs0 bs')
  case Nil
  then show ?case by simp
next
  case (Cons blk rest)
  from Cons.prems obtain blk' rest' where
    t: "Block_terminate blk = Inr blk'"
    and rec: "terminate_blocks (Suc b) rest (evs @ [Terminated b]) = Inr (rest', evs')"
    and bs': "bs' = blk' # rest'"
    by (auto split: sum.splits prod.splits)
  show ?case
  proof (cases m)
    case 0
    then show ?thesis by simp
  next
    case (Suc m')
    have "[b..<b + Suc (min m' (length rest))] = b # [Suc b..<Suc b + min m' (length rest)]"
      using upt_conv_Cons [of b "b + Suc (min m' (length rest))"] by simp
    with Cons.IH [OF rec, of m' "evs0 @ [Terminated b]"] t bs' Suc show ?thesis
      by simp
  qed
qed

lemma filter_below_terminated:
  "filter (block_below k) (map Terminated [0..<n]) = map Terminated [0..<min k n]"
proof (induction n)
  case 0
  then show ?case by simp
next
  case (Suc n)
  show ?case
  proof (cases "n < k")
    case True
    then have "min k (Suc n) = Suc n" "min k n = n" by simp_all
    with Suc True show ?thesis by (simp add: block_below_def)
  next
    case False
    then have "min k (Suc n) = min k n" by simp
    with Suc False show ?thesis by (simp add: block_below_def)
  qed
qed

lemma Sequence_run_prefix:
  assumes run: "Sequence_run self images sp live telescope tm = Done s t"
  shows "\<exists>s0 t0. Sequence_run (first_blocks k self) images sp live telescope tm = Done s0 t0 \<and>
           blocks s0 = take k (blocks s) \<and>
           events t0 = filter (block_below k) (events t)"
proof -
  let ?selfa = "self\<lparr>files_or_images := normalise_images images\<rparr>"
  let ?init = "\<lparr>r_blocks = blocks self, r_n = 0, r_last = last_image self, r_discards = [],
           r_console = [], r_events = []\<rparr>"
  let ?initpre = "\<lparr>r_blocks = take k (blocks self), r_n = 0, r_last = last_image self,
           r_discards = [], r_console = [], r_events = []\<rparr>"
  from run obtain xs r bs' evs where
    v: "validate_images (normalise_images images) = Inr xs"
    and r: "run_images (loader self) telescope live 0 xs ?init = Inr r"
    and tb: "(if tm then terminate_blocks 0 (r_blocks r) (r_events r)
              else Inr (r_blocks r, r_events r)) = Inr (bs', evs)"
    and s: "s = store_blocks bs' (?selfa\<lparr>n_processed_images := Some (r_n r), last_image := r_last r\<rparr>)"
    and t: "events t = evs"
    by (auto simp: Sequence_run_def Let_def blocks_def split: sum.splits prod.splits)
  have "\<exists>r0'. run_images (loader self) telescope live 0 xs ?initpre = Inr r0' \<and>
       r_blocks r0' = take k (r_blocks r) \<and> r_events r0' = filter (block_below k) (r_events r)"
    by (rule run_images_prefix [OF r]) simp_all
  then obtain r0' where
    r0: "run_images (loader self) telescope live 0 xs ?initpre = Inr r0'"
    and b0: "r_blocks r0' = take k (r_blocks r)"
    and e0: "r_events r0' = filter (block_below k) (r_events r)"
    by blast
  from run_images_shape [OF r] have lr: "length (r_blocks r) = length (blocks self)"
    by simp
  have lbd: "length (blocks self) = length (blocks_dict self)"
    by (simp add: blocks_def)
  have tb0: "(if tm then terminate_blocks 0 (r_blocks r0') (r_events r0')
              else Inr (r_blocks r0', r_events r0')) =
             Inr (take k bs', filter (block_below k) evs)"
    and lb: "length bs' = length (blocks self)"
  proof -
    show "(if tm then terminate_blocks 0 (r_blocks r0') (r_events r0')
              else Inr (r_blocks r0', r_events r0')) =
             Inr (take k bs', filter (block_below k) evs)"
    proof (cases tm)
      case True
      with tb have tt: "terminate_blocks 0 (r_blocks r) (r_events r) = Inr (bs', evs)"
        by simp
      from terminate_blocks_shape [OF tt] have
        "evs = r_events r @ map Terminated [0..<0 + length (r_blocks r)]"
        by simp
      then have "filter (block_below k) evs =
          r_events r0' @ map Terminated [0..<min k (length (r_blocks r))]"
        by (simp add: e0 filter_below_terminated)
      with terminate_blocks_prefix [OF tt, of k "r_events r0'"] b0 True show ?thesis
        by simp
    next
      case False
      with tb b0 e0 show ?thesis by auto
    qed
    show "length bs' = length (blocks self)"
    proof (cases tm)
      case True
      with tb have "terminate_blocks 0 (r_blocks r) (r_events r) = Inr (bs', evs)"
        by simp
      from terminate_blocks_shape [OF this] lr show ?thesis by simp
    next
      case False
      with tb lr show ?thesis by auto
    qed
  qed
  let ?res = "store_blocks (take k bs')
      ((first_blocks k self)\<lparr>files_or_images := normalise_images images,
         n_processed_images := Some (r_n r0'), last_image := r_last r0'\<rparr>)"
  let ?tr = "\<lparr>console = r_console r0' @
                 (if \<not> live then discard_warnings (r_discards r0') else []),
              events = filter (block_below k) evs\<rparr>"
  have bf: "blocks (first_blocks k self) = take k (blocks self)"
    by (simp add: blocks_def first_blocks_def take_map)
  have run0: "Sequence_run (first_blocks k self) images sp live telescope tm = Done ?res ?tr"
  proof -
    have "validate_images (files_or_images ((first_blocks k self)\<lparr>files_or_images := normalise_images images\<rparr>)) = Inr xs"
      using v by simp
    moreover have "run_images (loader ((first_blocks k self)\<lparr>files_or_images := normalise_images images\<rparr>))
        telescope live 0 xs
        \<lparr>r_blocks = blocks ((first_blocks k self)\<lparr>files_or_images := normalise_images images\<rparr>),
         r_n = 0,
         r_last = last_image ((first_blocks k self)\<lparr>files_or_images := normalise_images images\<rparr>),
         r_discards = [], r_console = [], r_events = []\<rparr> = Inr r0'"
      using r0 bf by (simp add: first_blocks_def blocks_def)
    ultimately show ?thesis
      using tb0 by (simp add: Sequence_run_def Let_def first_blocks_def)
  qed
  have "blocks ?res = take k bs'"
    by (rule blocks_store_blocks) (simp add: first_blocks_def lb blocks_def)
  moreover have "blocks s = bs'"
    unfolding s by (rule blocks_store_blocks) (simp add: lb blocks_def)
  ultimately show ?thesis
    using run0 t by simp
qed

text \<open>
  Claim C1. In a run of \<open>Sequence.run\<close> that returns: when \<open>image.discard\<close> is true as
  block \<open>k\<close> returns from image \<open>i\<close>, no block with a greater index is run on image \<open>i\<close>.
  And the blocks before any index \<open>k\<close> are not affected by what block \<open>k\<close> and the later
  blocks do, on any image: the run of the sequence cut down to its first \<open>k\<close> blocks
  returns too, makes the calls that the full run makes on those blocks, in the same
  order, and leaves them in the same state.
\<close>

theorem discard_short_circuit:
  "Sequence_run self images sp live telescope tm = Done s t \<longrightarrow>
     (\<forall>i k b d. Ran k i True \<in> set (events t) \<longrightarrow> Ran b i d \<in> set (events t) \<longrightarrow> b \<le> k) \<and>
     (\<forall>k. \<exists>s0 t0. Sequence_run (first_blocks k self) images sp live telescope tm = Done s0 t0 \<and>
        blocks s0 = take k (blocks s) \<and>
        events t0 = filter (block_below k) (events t))"
proof
  assume run: "Sequence_run self images sp live telescope tm = Done s t"
  have "\<forall>i k b d. Ran k i True \<in> set (events t) \<longrightarrow> Ran b i d \<in> set (events t) \<longrightarrow> b \<le> k"
    using Sequence_run_discard_stops [OF run] by blast
  moreover have "\<forall>k. \<exists>s0 t0. Sequence_run (first_blocks k self) images sp live telescope tm = Done s0 t0 \<and>
        blocks s0 = take k (blocks s) \<and>
        events t0 = filter (block_below k) (events t)"
    using Sequence_run_prefix [OF run] by blast
  ultimately show "(\<forall>i k b d. Ran k i True \<in> set (events t) \<longrightarrow> Ran b i d \<in> set (events t) \<longrightarrow> b \<le> k) \<and>
     (\<forall>k. \<exists>s0 t0. Sequence_run (first_blocks k self) images sp live telescope tm = Done s0 t0 \<and>
        blocks s0 = take k (blocks s) \<and>
        events t0 = filter (block_below k) (events t))"
    by blast
qed

theorem discard_short_circuit_witness:
  "(case Sequence_run abc_sequence (PyList (replicate 5 (Img new_image))) True False VNone True of
      Done s t \<Rightarrow>
        Ran 1 1 True \<in> set (events t) \<and> Ran 2 1 False \<notin> set (events t) \<and>
        (case Sequence_run (first_blocks 1 abc_sequence) (PyList (replicate 5 (Img new_image)))
                True False VNone True of
           Done s0 t0 \<Rightarrow> events t0 = filter (block_below 1) (events t)
         | _ \<Rightarrow> False)
    | _ \<Rightarrow> False)"
proof (cases "Sequence_run abc_sequence (PyList (replicate 5 (Img new_image))) True False VNone True")
  case (Done s t)
  with abc_scenario have ev: "Ran 1 1 True \<in> set (events t)"
    by simp
  from discard_short_circuit
         [of abc_sequence "PyList (replicate 5 (Img new_image))" True False VNone True s t] Done
  have stop: "\<forall>i k b d. Ran k i True \<in> set (events t) \<longrightarrow> Ran b i d \<in> set (events t) \<longrightarrow> b \<le> k"
    and pre: "\<forall>k. \<exists>s0 t0. Sequence_run (first_blocks k abc_sequence)
          (PyList (replicate 5 (Img new_image))) True False VNone True = Done s0 t0 \<and>
        blocks s0 = take k (blocks s) \<and>
        events t0 = filter (block_below k) (events t)"
    by simp_all
  have no: "Ran 2 1 False \<notin> set (events t)"
  proof
    assume "Ran 2 1 False \<in> set (events t)"
    with stop ev have "(2::nat) \<le> 1" by blast
    then show False by simp
  qed
  from pre obtain s0 t0 where
    "Sequence_run (first_blocks 1 abc_sequence)
          (PyList (replicate 5 (Img new_image))) True False VNone True = Done s0 t0"
    "events t0 = filter (block_below 1) (events t)"
    by blast
  with Done ev no show ?thesis by simp
next
  case (Rejected e s t)
  with abc_scenario show ?thesis by simp
next
  case (Aborted e)
  with abc_scenario show ?thesis by simp
qed

subsection \<open>The batched discard report\<close>

lemma digit_char_inj:
  assumes "a < 10" "b < 10" "digit_char a = digit_char b"
  shows "a = b"
proof -
  from assms(3) have "(of_char (char_of (48 + a)) :: nat) = of_char (char_of (48 + b))"
    by (simp add: digit_char_def)
  with assms(1,2) show ?thesis by simp
qed

lemma str_nat_nonempty: "str_nat n \<noteq> []"
  by (subst str_nat.simps) simp

lemma str_nat_small: "n < 10 \<Longrightarrow> str_nat n = [digit_char n]"
  by (subst str_nat.simps) simp

lemma str_nat_large: "\<not> n < 10 \<Longrightarrow> str_nat n = str_nat (n div 10) @ [digit_char (n mod 10)]"
  by (subst str_nat.simps) simp

lemma str_nat_inj: "str_nat n = str_nat m \<Longrightarrow> n = m"
proof (induction n arbitrary: m rule: str_nat.induct)
  case (1 n)
  show ?case
  proof (cases "n < 10")
    case n: True
    show ?thesis
    proof (cases "m < 10")
      case True
      with n "1.prems" show ?thesis
        by (simp add: str_nat_small digit_char_inj)
    next
      case False
      with n "1.prems" have "[digit_char n] = str_nat (m div 10) @ [digit_char (m mod 10)]"
        by (simp add: str_nat_small str_nat_large)
      then have "str_nat (m div 10) = []" by simp
      with str_nat_nonempty show ?thesis by blast
    qed
  next
    case n: False
    show ?thesis
    proof (cases "m < 10")
      case True
      with n "1.prems" have "str_nat (n div 10) @ [digit_char (n mod 10)] = [digit_char m]"
        by (simp add: str_nat_small str_nat_large)
      then have "str_nat (n div 10) = []" by simp
      with str_nat_nonempty show ?thesis by blast
    next
      case False
      with n "1.prems" have
        "str_nat (n div 10) @ [digit_char (n mod 10)] = str_nat (m div 10) @ [digit_char (m mod 10)]"
        by (simp add: str_nat_large)
      then have a: "str_nat (n div 10) = str_nat (m div 10)"
        and b: "digit_char (n mod 10) = digit_char (m mod 10)"
        by simp_all
      from "1.IH" [OF n a] have d: "n div 10 = m div 10" .
      have "n mod 10 = m mod 10"
        by (rule digit_char_inj [OF _ _ b]) simp_all
      with d show ?thesis
        by (metis div_mult_mod_eq)
    qed
  qed
qed

lemma append_discard_Nil: "append_discard c s [] = [(c, [s])]"
  by (simp add: append_discard_def)

lemma append_discard_hit: "append_discard c s ((c, l) # ds) = (c, l @ [s]) # ds"
  by (simp add: append_discard_def)

lemma append_discard_miss:
  "a \<noteq> c \<Longrightarrow> append_discard c s ((a, l) # ds) = (a, l) # append_discard c s ds"
  by (simp add: append_discard_def split: option.splits)

lemma reported_discard_warnings:
  "reported_pairs (discard_warnings ds) = concat (map (\<lambda>(c, l). map (Pair c) l) ds)"
  "reported_causes (discard_warnings ds) = map fst ds"
  by (induction ds) (auto simp: reported_pairs_def reported_causes_def discard_warnings_def)

lemma reported_pairs_Cons:
  "reported_pairs (discard_warnings ((a, l) # ds)) =
     map (Pair a) l @ reported_pairs (discard_warnings ds)"
  by (simp add: reported_pairs_def discard_warnings_def)

lemma append_discard_keys:
  "map fst (append_discard c s ds) =
     (if c \<in> set (map fst ds) then map fst ds else map fst ds @ [c])"
proof (induction ds)
  case Nil
  show ?case by (simp add: append_discard_Nil)
next
  case (Cons p ds)
  obtain a l where p: "p = (a, l)" by (cases p)
  show ?case
  proof (cases "a = c")
    case True
    with p show ?thesis by (simp add: append_discard_hit)
  next
    case False
    with p Cons show ?thesis by (simp add: append_discard_miss)
  qed
qed

lemma append_discard_pairs:
  "set (reported_pairs (discard_warnings (append_discard c s ds))) =
     insert (c, s) (set (reported_pairs (discard_warnings ds)))"
proof (induction ds)
  case Nil
  show ?case by (simp add: append_discard_Nil reported_discard_warnings)
next
  case (Cons p ds)
  obtain a l where p: "p = (a, l)" by (cases p)
  show ?case
  proof (cases "a = c")
    case True
    with p show ?thesis by (auto simp: append_discard_hit reported_discard_warnings)
  next
    case False
    with p Cons show ?thesis by (auto simp: append_discard_miss reported_discard_warnings)
  qed
qed

lemma append_discard_distinct:
  "distinct (map fst ds) \<Longrightarrow> distinct (reported_pairs (discard_warnings ds)) \<Longrightarrow>
   (c, s) \<notin> set (reported_pairs (discard_warnings ds)) \<Longrightarrow>
     distinct (reported_pairs (discard_warnings (append_discard c s ds)))"
proof (induction ds)
  case Nil
  show ?case by (simp add: append_discard_Nil reported_discard_warnings)
next
  case (Cons p ds)
  obtain a l where p: "p = (a, l)" by (cases p)
  show ?case
  proof (cases "a = c")
    case True
    with p Cons.prems show ?thesis
      by (auto simp: append_discard_hit reported_discard_warnings distinct_map inj_on_def)
  next
    case False
    from Cons.prems p have
      d: "distinct (map fst ds)" "distinct (reported_pairs (discard_warnings ds))"
         "(c, s) \<notin> set (reported_pairs (discard_warnings ds))"
      and l: "distinct (map (Pair a) l)"
      and dis: "set (map (Pair a) l) \<inter> set (reported_pairs (discard_warnings ds)) = {}"
      by (simp_all add: reported_pairs_Cons)
    from Cons.IH [OF d] have "distinct (reported_pairs (discard_warnings (append_discard c s ds)))" .
    moreover from dis False have
      "set (map (Pair a) l) \<inter> set (reported_pairs (discard_warnings (append_discard c s ds))) = {}"
      by (auto simp: append_discard_pairs)
    ultimately show ?thesis
      using p False l
      by (simp add: append_discard_miss reported_pairs_Cons)
  qed
qed

lemma record_causes_keys:
  "distinct (map fst ds) \<Longrightarrow> distinct (map fst (record_causes names cs ds))"
proof (induction cs arbitrary: ds)
  case Nil
  then show ?case by (simp add: record_causes_def)
next
  case (Cons c cs)
  obtain k i where c: "c = (k, i)" by (cases c)
  from Cons.prems have "distinct (map fst (append_discard (names ! k) (str_nat i) ds))"
    by (simp add: append_discard_keys)
  from Cons.IH [OF this] c show ?case
    by (simp add: record_causes_def)
qed

lemma record_causes_pairs:
  "set (reported_pairs (discard_warnings (record_causes names cs ds))) =
     set (reported_pairs (discard_warnings ds)) \<union> (\<lambda>(k, i). (names ! k, str_nat i)) ` set cs"
proof (induction cs arbitrary: ds)
  case Nil
  show ?case by (simp add: record_causes_def)
next
  case (Cons c cs)
  obtain k i where c: "c = (k, i)" by (cases c)
  have "record_causes names (c # cs) ds =
      record_causes names cs (append_discard (names ! k) (str_nat i) ds)"
    using c by (simp add: record_causes_def)
  with Cons.IH [of "append_discard (names ! k) (str_nat i) ds"] c show ?case
    by (simp add: append_discard_pairs)
qed

lemma record_causes_distinct:
  "distinct (map fst ds) \<Longrightarrow> distinct (reported_pairs (discard_warnings ds)) \<Longrightarrow>
   distinct (map snd cs) \<Longrightarrow>
   (\<forall>c \<in> set cs. \<forall>x. (x, str_nat (snd c)) \<notin> set (reported_pairs (discard_warnings ds))) \<Longrightarrow>
     distinct (reported_pairs (discard_warnings (record_causes names cs ds)))"
proof (induction cs arbitrary: ds)
  case Nil
  then show ?case by (simp add: record_causes_def)
next
  case (Cons c cs)
  obtain k i where c: "c = (k, i)" by (cases c)
  let ?ds = "append_discard (names ! k) (str_nat i) ds"
  have step: "record_causes names (c # cs) ds = record_causes names cs ?ds"
    using c by (simp add: record_causes_def)
  from Cons.prems(4) c have fresh: "(names ! k, str_nat i) \<notin> set (reported_pairs (discard_warnings ds))"
    by simp
  have 1: "distinct (map fst ?ds)"
    using Cons.prems(1) by (simp add: append_discard_keys)
  have 2: "distinct (reported_pairs (discard_warnings ?ds))"
    using Cons.prems(1,2) fresh by (rule append_discard_distinct)
  have 3: "distinct (map snd cs)"
    using Cons.prems(3) by simp
  have 4: "\<forall>c' \<in> set cs. \<forall>x. (x, str_nat (snd c')) \<notin> set (reported_pairs (discard_warnings ?ds))"
  proof (intro ballI allI)
    fix c' x assume c': "c' \<in> set cs"
    with Cons.prems(3) c have "snd c' \<noteq> i" by force
    then have "str_nat (snd c') \<noteq> str_nat i"
      using str_nat_inj by blast
    moreover from Cons.prems(4) c' have
      "(x, str_nat (snd c')) \<notin> set (reported_pairs (discard_warnings ds))"
      by simp
    ultimately show "(x, str_nat (snd c')) \<notin> set (reported_pairs (discard_warnings ?ds))"
      by (simp add: append_discard_pairs)
  qed
  from Cons.IH [OF 1 2 3 4] step show ?case by simp
qed

lemma Block_run_cls: "Block_run blk img = Inr (blk', img') \<Longrightarrow> cls blk' = cls blk"
  by (auto simp: Block_run_def split: sum.splits prod.splits)

lemma run_blocks_cls:
  "run_blocks names live i b bs st = Inr (bs', st') \<Longrightarrow> map cls bs' = map cls bs"
proof (induction bs arbitrary: b st bs')
  case Nil
  then show ?case by simp
next
  case (Cons blk rest)
  from Cons.prems show ?case
  proof (cases rule: run_blocks_Cons_cases)
    case (ran blk' img' rest')
    from Cons.IH [OF ran(3)] Block_run_cls [OF ran(2)] ran(4) show ?thesis by simp
  next
    case (first_skip lb rest')
    from Cons.IH [OF first_skip(4)] first_skip(5) show ?thesis by simp
  next
    case (skip rest')
    from Cons.IH [OF skip(3)] skip(4) show ?thesis by simp
  qed
qed

lemma setattr_i_keeps_discard:
  assumes "plain_setattr img ''i'' v = Inr img'"
  shows "discard_flag img' = discard_flag img"
proof -
  have upd: "plain_getattribute (AList.update ''i'' v img) ''discard'' =
      plain_getattribute img ''discard''"
    by (simp add: plain_getattribute_def Image_getattr_hook_def update_conv'
             split: option.splits)
  have cmp: "plain_getattribute (AList.update ''computed'' (VDict (AList.update ''i'' v c)) img)
        ''discard'' = plain_getattribute img ''discard''"
    if "map_of img ''computed'' = Some (VDict c)" for c
    using that
    by (simp add: plain_getattribute_def Image_getattr_hook_def update_conv'
             split: option.splits)
  from assms consider "img' = AList.update ''i'' v img"
    | c where "map_of img ''computed'' = Some (VDict c)"
        "img' = AList.update ''computed'' (VDict (AList.update ''i'' v c)) img"
    by (auto simp: plain_setattr_def ebind_def computed_store_def
             split: sum.splits if_splits option.splits val.splits)
  then have "plain_getattribute img' ''discard'' = plain_getattribute img ''discard''"
  proof cases
    case 1
    with upd show ?thesis by simp
  next
    case 2
    with cmp show ?thesis by simp
  qed
  then show ?thesis by (simp add: discard_flag_def)
qed

lemma py_index_nth:
  "0 < b \<Longrightarrow> b \<le> length names \<Longrightarrow> py_index names (int b - 1) = Inr (names ! (b - 1))"
  by (cases b) (simp_all add: py_index_def Let_def)

lemma run_blocks_first_skip_records:
  assumes flag: "discard_flag (l_image st) = Inr True" and dm: "\<not> discard_message st"
    and run: "run_blocks names False i b (blk # rest) st = Inr (bs', st')"
    and b: "0 < b" "b \<le> length names"
  shows "discards st' = append_discard (names ! (b - 1)) (str_nat i) (discards st) \<and>
         l_console st' = l_console st \<and> l_events st' = l_events st"
  using run
proof (cases rule: run_blocks_Cons_cases)
  case (ran blk' img' rest')
  with flag show ?thesis by simp
next
  case (first_skip lb rest')
  from py_index_nth [OF b] first_skip(3) have lb: "lb = names ! (b - 1)" by simp
  from flag have "run_blocks names False i (Suc b) rest (note_discard False i lb st) =
      Inr (rest, note_discard False i lb st)"
    by (intro run_blocks_skip_all) simp_all
  with first_skip(4) have "st' = note_discard False i lb st" by simp
  with lb show ?thesis by (simp add: note_discard_def)
next
  case (skip rest')
  with dm show ?thesis by simp
qed

lemma discard_causes_simps [simp]:
  "discard_causes n [] = []"
  "discard_causes n (Ran k i d # evs) =
     (if d \<and> Suc k < n then (k, i) # discard_causes n evs else discard_causes n evs)"
  "discard_causes n (Loaded j # evs) = discard_causes n evs"
  "discard_causes n (Terminated j # evs) = discard_causes n evs"
  "discard_causes n (evs @ evs') = discard_causes n evs @ discard_causes n evs'"
  by (simp_all add: discard_causes_def)

lemma record_causes_simps [simp]:
  "record_causes names [] ds = ds"
  "record_causes names ((k, i) # cs) ds =
     record_causes names cs (append_discard (names ! k) (str_nat i) ds)"
  "record_causes names (cs @ cs') ds = record_causes names cs' (record_causes names cs ds)"
  by (simp_all add: record_causes_def)

text \<open>
  The loop over the blocks, for an image that is not discarded when it comes in: it
  records at most one cause, the call after which the image was left discarded.
\<close>

lemma run_blocks_records:
  "run_blocks names False i b bs st = Inr (bs', st') \<Longrightarrow> b + length bs = length names \<Longrightarrow>
   discard_flag (l_image st) \<noteq> Inr True \<Longrightarrow> \<not> discard_message st \<Longrightarrow>
     \<exists>evs. l_events st' = l_events st @ evs \<and>
       discards st' = record_causes names (discard_causes (length names) evs) (discards st) \<and>
       l_console st' = l_console st \<and>
       (discard_causes (length names) evs = [] \<or>
        (\<exists>k. discard_causes (length names) evs = [(k, i)]))"
proof (induction bs arbitrary: b st bs')
  case Nil
  then have "st' = st" by simp
  then have "l_events st' = l_events st @ [] \<and>
       discards st' = record_causes names (discard_causes (length names) []) (discards st) \<and>
       l_console st' = l_console st \<and>
       (discard_causes (length names) [] = [] \<or>
        (\<exists>k. discard_causes (length names) [] = [(k, i)]))"
    by simp
  then show ?case by blast
next
  case (Cons blk rest)
  from Cons.prems(1) show ?case
  proof (cases rule: run_blocks_Cons_cases)
    case (ran blk' img' rest')
    let ?d = "discard_flag img' = Inr True"
    let ?ev = "Ran b i ?d"
    let ?next = "st\<lparr>l_image := img', l_events := l_events st @ [?ev]\<rparr>"
    show ?thesis
    proof (cases ?d)
      case True
      show ?thesis
      proof (cases rest)
        case Nil
        with ran(3) have st': "st' = ?next" by simp
        from Nil Cons.prems(2) have "\<not> Suc b < length names" by simp
        with st' True have "l_events st' = l_events st @ [?ev] \<and>
            discards st' = record_causes names (discard_causes (length names) [?ev]) (discards st) \<and>
            l_console st' = l_console st \<and>
            (discard_causes (length names) [?ev] = [] \<or>
             (\<exists>k. discard_causes (length names) [?ev] = [(k, i)]))"
          by simp
        then show ?thesis by blast
      next
        case (Cons blk2 rest2)
        have flag: "discard_flag (l_image ?next) = Inr True"
          using True by simp
        have dm: "\<not> discard_message ?next"
          using Cons.prems(4) by simp
        from ran(3) Cons have run2: "run_blocks names False i (Suc b) (blk2 # rest2) ?next = Inr (rest', st')"
          by simp
        from Cons.prems(2) Cons have lt: "Suc b < length names" "0 < Suc b" "Suc b \<le> length names"
          by simp_all
        from run_blocks_first_skip_records [OF flag dm run2 lt(2) lt(3)]
        have "discards st' = append_discard (names ! b) (str_nat i) (discards st)"
          and "l_console st' = l_console st" and "l_events st' = l_events st @ [?ev]"
          by simp_all
        with True lt(1) have "l_events st' = l_events st @ [?ev] \<and>
            discards st' = record_causes names (discard_causes (length names) [?ev]) (discards st) \<and>
            l_console st' = l_console st \<and>
            (discard_causes (length names) [?ev] = [] \<or>
             (\<exists>k. discard_causes (length names) [?ev] = [(k, i)]))"
          by simp
        then show ?thesis by blast
      qed
    next
      case False
      have "Suc b + length rest = length names" "discard_flag (l_image ?next) \<noteq> Inr True"
        "\<not> discard_message ?next"
        using Cons.prems(2,4) False by simp_all
      from Cons.IH [OF ran(3) this] obtain evs where
        e: "l_events st' = l_events ?next @ evs"
        and d: "discards st' = record_causes names (discard_causes (length names) evs) (discards ?next)"
        and c: "l_console st' = l_console ?next"
        and o: "discard_causes (length names) evs = [] \<or>
                (\<exists>k. discard_causes (length names) evs = [(k, i)])"
        by blast
      from e d c o False have "l_events st' = l_events st @ (?ev # evs) \<and>
          discards st' = record_causes names (discard_causes (length names) (?ev # evs)) (discards st) \<and>
          l_console st' = l_console st \<and>
          (discard_causes (length names) (?ev # evs) = [] \<or>
           (\<exists>k. discard_causes (length names) (?ev # evs) = [(k, i)]))"
        by simp
      then show ?thesis by blast
    qed
  next
    case (first_skip lb rest')
    with Cons.prems(3) show ?thesis by simp
  next
    case (skip rest')
    with Cons.prems(3) show ?thesis by simp
  qed
qed

lemma run_image_records:
  assumes run: "run_image ld telescope False i it r = Inr r'"
    and ok: "\<forall>img. load_item ld telescope it = Inr img \<longrightarrow> discard_flag img \<noteq> Inr True"
  shows "\<exists>evs. r_events r' = r_events r @ evs \<and>
       r_discards r' =
         record_causes (map cls (r_blocks r)) (discard_causes (length (r_blocks r)) evs)
           (r_discards r) \<and>
       r_console r' = r_console r \<and> map cls (r_blocks r') = map cls (r_blocks r) \<and>
       (discard_causes (length (r_blocks r)) evs = [] \<or>
        (\<exists>k. discard_causes (length (r_blocks r)) evs = [(k, i)]))"
proof -
  let ?names = "map cls (r_blocks r)"
  from run obtain img0 img bs' st where
    l: "load_item ld telescope it = Inr img0"
    and sa: "plain_setattr img0 ''i'' (VInt (int i)) = Inr img"
    and rb: "run_blocks ?names False i 0 (r_blocks r)
           \<lparr>l_image = img, discard_message = False, last_block = None,
            discards = r_discards r, l_console = r_console r,
            l_events = r_events r @ load_events i it\<rparr> = Inr (bs', st)"
    and r': "r_blocks r' = bs'" "r_events r' = l_events st" "r_discards r' = discards st"
            "r_console r' = l_console st"
    by (auto simp: run_image_def split: sum.splits prod.splits)
  from ok l setattr_i_keeps_discard [OF sa] have flag: "discard_flag img \<noteq> Inr True"
    by simp
  have "\<exists>evs. l_events st = (r_events r @ load_events i it) @ evs \<and>
       discards st = record_causes ?names (discard_causes (length ?names) evs) (r_discards r) \<and>
       l_console st = r_console r \<and>
       (discard_causes (length ?names) evs = [] \<or>
        (\<exists>k. discard_causes (length ?names) evs = [(k, i)]))"
    using run_blocks_records [OF rb] flag by simp
  then obtain evs where
    e: "l_events st = (r_events r @ load_events i it) @ evs"
    and d: "discards st = record_causes ?names (discard_causes (length ?names) evs) (r_discards r)"
    and c: "l_console st = r_console r"
    and o: "discard_causes (length ?names) evs = [] \<or>
            (\<exists>k. discard_causes (length ?names) evs = [(k, i)])"
    by blast
  have ld: "discard_causes n (load_events i it) = []" for n
    by (cases it) (simp_all add: load_events_def)
  from e d c o r' ld run_blocks_cls [OF rb]
  have "r_events r' = r_events r @ (load_events i it @ evs) \<and>
       r_discards r' =
         record_causes ?names (discard_causes (length (r_blocks r)) (load_events i it @ evs))
           (r_discards r) \<and>
       r_console r' = r_console r \<and> map cls (r_blocks r') = map cls (r_blocks r) \<and>
       (discard_causes (length (r_blocks r)) (load_events i it @ evs) = [] \<or>
        (\<exists>k. discard_causes (length (r_blocks r)) (load_events i it @ evs) = [(k, i)]))"
    by simp
  then show ?thesis by blast
qed

lemma run_images_records:
  "run_images ld telescope False i xs r = Inr r' \<Longrightarrow>
   \<forall>it \<in> set xs. \<forall>img. load_item ld telescope it = Inr img \<longrightarrow> discard_flag img \<noteq> Inr True \<Longrightarrow>
     \<exists>evs. r_events r' = r_events r @ evs \<and>
       r_discards r' =
         record_causes (map cls (r_blocks r)) (discard_causes (length (r_blocks r)) evs)
           (r_discards r) \<and>
       r_console r' = r_console r \<and>
       distinct (map snd (discard_causes (length (r_blocks r)) evs)) \<and>
       (\<forall>c \<in> set (discard_causes (length (r_blocks r)) evs). i \<le> snd c)"
proof (induction xs arbitrary: i r)
  case Nil
  then have "r_events r' = r_events r @ [] \<and>
       r_discards r' =
         record_causes (map cls (r_blocks r)) (discard_causes (length (r_blocks r)) [])
           (r_discards r) \<and>
       r_console r' = r_console r \<and>
       distinct (map snd (discard_causes (length (r_blocks r)) [])) \<and>
       (\<forall>c \<in> set (discard_causes (length (r_blocks r)) []). i \<le> snd c)"
    by simp
  then show ?case by blast
next
  case (Cons x xs)
  let ?names = "map cls (r_blocks r)" and ?n = "length (r_blocks r)"
  from Cons.prems(1) obtain r1 where
    r1: "run_image ld telescope False i x r = Inr r1"
    and rest: "run_images ld telescope False (Suc i) xs r1 = Inr r'"
    by (auto split: sum.splits)
  from Cons.prems(2) have okx: "\<forall>img. load_item ld telescope x = Inr img \<longrightarrow> discard_flag img \<noteq> Inr True"
    and okxs: "\<forall>it \<in> set xs. \<forall>img. load_item ld telescope it = Inr img \<longrightarrow> discard_flag img \<noteq> Inr True"
    by simp_all
  from run_image_records [OF r1 okx] obtain e1 where
    a1: "r_events r1 = r_events r @ e1"
    and a2: "r_discards r1 = record_causes ?names (discard_causes ?n e1) (r_discards r)"
    and a3: "r_console r1 = r_console r"
    and a4: "map cls (r_blocks r1) = ?names"
    and a5: "discard_causes ?n e1 = [] \<or> (\<exists>k. discard_causes ?n e1 = [(k, i)])"
    by blast
  from a4 have n1: "length (r_blocks r1) = ?n"
    by (rule map_eq_imp_length_eq)
  from Cons.IH [OF rest okxs] a4 n1 obtain e2 where
    b1: "r_events r' = r_events r1 @ e2"
    and b2: "r_discards r' = record_causes ?names (discard_causes ?n e2) (r_discards r1)"
    and b3: "r_console r' = r_console r1"
    and b4: "distinct (map snd (discard_causes ?n e2))"
    and b5: "\<forall>c \<in> set (discard_causes ?n e2). Suc i \<le> snd c"
    by auto
  have d: "distinct (map snd (discard_causes ?n (e1 @ e2)))"
    using a5 b4 b5 by auto
  have g: "\<forall>c \<in> set (discard_causes ?n (e1 @ e2)). i \<le> snd c"
    using a5 b5 by auto
  from a1 a2 a3 b1 b2 b3 d g
  have "r_events r' = r_events r @ (e1 @ e2) \<and>
       r_discards r' = record_causes ?names (discard_causes ?n (e1 @ e2)) (r_discards r) \<and>
       r_console r' = r_console r \<and>
       distinct (map snd (discard_causes ?n (e1 @ e2))) \<and>
       (\<forall>c \<in> set (discard_causes ?n (e1 @ e2)). i \<le> snd c)"
    by simp
  then show ?case by blast
qed

lemma set_discard_causes:
  "set (discard_causes n evs) = {(k, i). Ran k i True \<in> set evs \<and> Suc k < n}"
proof (induction evs)
  case Nil
  show ?case by simp
next
  case (Cons ev evs)
  then show ?case by (cases ev) auto
qed

lemma discard_causes_terminated [simp]:
  "discard_causes n (map Terminated js) = []"
  by (induction js) simp_all

lemma reported_nil [simp]:
  "reported_pairs (discard_warnings []) = []" "reported_causes (discard_warnings []) = []"
  by (simp_all add: reported_discard_warnings)

lemma record_causes_cause_set:
  "set (map fst (record_causes names cs ds)) =
     set (map fst ds) \<union> (\<lambda>(k, i). names ! k) ` set cs"
proof (induction cs arbitrary: ds)
  case Nil
  show ?case by simp
next
  case (Cons c cs)
  obtain k i where c: "c = (k, i)" by (cases c)
  have "set (map fst (append_discard (names ! k) (str_nat i) ds)) =
      insert (names ! k) (set (map fst ds))"
    by (auto simp: append_discard_keys)
  with Cons.IH [of "append_discard (names ! k) (str_nat i) ds"] c show ?case
    by auto
qed

lemma Sequence_run_report:
  assumes run: "Sequence_run self images sp False telescope tm = Done s t"
    and v: "validate_images (normalise_images images) = Inr xs"
    and ok: "\<forall>it \<in> set xs. \<forall>img. load_item (loader self) telescope it = Inr img \<longrightarrow>
               discard_flag img \<noteq> Inr True"
  shows "\<exists>cs. console t = discard_warnings (record_causes (map cls (blocks self)) cs []) \<and>
           set cs = {(k, i). Ran k i True \<in> set (events t) \<and> Suc k < length (blocks self)} \<and>
           distinct (map snd cs)"
proof -
  let ?r = "\<lparr>r_blocks = blocks self, r_n = 0, r_last = last_image self, r_discards = [],
           r_console = [], r_events = []\<rparr>"
  from run v obtain r where
    r: "run_images (loader self) telescope False 0 xs ?r = Inr r"
    and c: "console t = r_console r @ discard_warnings (r_discards r)"
    and t: "events t = r_events r \<or>
            (\<exists>bs'. terminate_blocks 0 (r_blocks r) (r_events r) = Inr (bs', events t))"
    by (auto simp: Sequence_run_def Let_def blocks_def split: sum.splits prod.splits if_splits)
  from t obtain js where js: "events t = r_events r @ map Terminated js"
  proof
    assume "events t = r_events r"
    then have "events t = r_events r @ map Terminated []" by simp
    then show ?thesis by (rule that)
  next
    assume "\<exists>bs'. terminate_blocks 0 (r_blocks r) (r_events r) = Inr (bs', events t)"
    then obtain bs' where "terminate_blocks 0 (r_blocks r) (r_events r) = Inr (bs', events t)" ..
    from terminate_blocks_shape [OF this] show ?thesis by (intro that) simp
  qed
  from run_images_records [OF r ok] obtain evs where
    e: "r_events r = evs"
    and d: "r_discards r = record_causes (map cls (blocks self))
              (discard_causes (length (blocks self)) evs) []"
    and k: "r_console r = []"
    and di: "distinct (map snd (discard_causes (length (blocks self)) evs))"
    by auto
  let ?cs = "discard_causes (length (blocks self)) evs"
  have "Ran k i True \<in> set (events t) \<longleftrightarrow> Ran k i True \<in> set evs" for k i
    using js e by auto
  then have "set ?cs = {(k, i). Ran k i True \<in> set (events t) \<and> Suc k < length (blocks self)}"
    by (simp add: set_discard_causes)
  with c d k di show ?thesis by auto
qed

text \<open>
  Claim C2, as the code has it. Take a run of \<open>Sequence.run\<close> with \<open>live_discard=False\<close>
  that returns, on inputs none of which comes in discarded. The (cause, image index) pairs
  of the end-of-run warnings are exactly the pairs of the class name of block \<open>k\<close> and
  \<open>str(i)\<close> such that image \<open>i\<close> was discarded when block \<open>k\<close> returned and a block follows
  block \<open>k\<close> (the first skipped one). No pair is reported twice, every line of the console
  is one summary warning, no two warnings name the same class, and each names at least
  one image.
\<close>

theorem batched_discard_report:
  "Sequence_run self images sp False telescope tm = Done s t \<and>
   validate_images (normalise_images images) = Inr xs \<and>
   (\<forall>it \<in> set xs. \<forall>img. load_item (loader self) telescope it = Inr img \<longrightarrow>
      discard_flag img \<noteq> Inr True) \<longrightarrow>
     set (reported_pairs (console t)) =
       {(cls (blocks self ! k), str_nat i) | k i.
          Ran k i True \<in> set (events t) \<and> Suc k < length (blocks self)} \<and>
     distinct (reported_pairs (console t)) \<and>
     distinct (reported_causes (console t)) \<and>
     length (console t) = length (reported_causes (console t)) \<and>
     set (reported_causes (console t)) = fst ` set (reported_pairs (console t))"
proof
  assume hyp: "Sequence_run self images sp False telescope tm = Done s t \<and>
   validate_images (normalise_images images) = Inr xs \<and>
   (\<forall>it \<in> set xs. \<forall>img. load_item (loader self) telescope it = Inr img \<longrightarrow>
      discard_flag img \<noteq> Inr True)"
  let ?names = "map cls (blocks self)"
  from hyp Sequence_run_report [of self images sp telescope tm s t xs] obtain cs where
    c: "console t = discard_warnings (record_causes ?names cs [])"
    and cs: "set cs = {(k, i). Ran k i True \<in> set (events t) \<and> Suc k < length (blocks self)}"
    and di: "distinct (map snd cs)"
    by blast
  let ?ds = "record_causes ?names cs []"
  have pairs: "set (reported_pairs (console t)) = (\<lambda>(k, i). (?names ! k, str_nat i)) ` set cs"
    using c by (simp add: record_causes_pairs)
  have nth: "?names ! k = cls (blocks self ! k)" if "(k, i) \<in> set cs" for k i
    using that cs by simp
  have 1: "set (reported_pairs (console t)) =
       {(cls (blocks self ! k), str_nat i) | k i.
          Ran k i True \<in> set (events t) \<and> Suc k < length (blocks self)}"
  proof (rule set_eqI)
    fix p
    show "p \<in> set (reported_pairs (console t)) \<longleftrightarrow>
        p \<in> {(cls (blocks self ! k), str_nat i) | k i.
          Ran k i True \<in> set (events t) \<and> Suc k < length (blocks self)}"
    proof
      assume "p \<in> set (reported_pairs (console t))"
      with pairs obtain k i where ki: "(k, i) \<in> set cs" and p: "p = (?names ! k, str_nat i)"
        by auto
      from nth [OF ki] p have "p = (cls (blocks self ! k), str_nat i)" by simp
      moreover from ki cs have "Ran k i True \<in> set (events t) \<and> Suc k < length (blocks self)"
        by simp
      ultimately show "p \<in> {(cls (blocks self ! k), str_nat i) | k i.
          Ran k i True \<in> set (events t) \<and> Suc k < length (blocks self)}"
        by blast
    next
      assume "p \<in> {(cls (blocks self ! k), str_nat i) | k i.
          Ran k i True \<in> set (events t) \<and> Suc k < length (blocks self)}"
      then obtain k i where p: "p = (cls (blocks self ! k), str_nat i)"
        and "Ran k i True \<in> set (events t)" "Suc k < length (blocks self)"
        by blast
      with cs have ki: "(k, i) \<in> set cs" by simp
      from nth [OF ki] p have "p = (\<lambda>(k, i). (?names ! k, str_nat i)) (k, i)" by simp
      with ki pairs show "p \<in> set (reported_pairs (console t))" by blast
    qed
  qed
  have 2: "distinct (reported_pairs (console t))"
    unfolding c by (rule record_causes_distinct) (simp_all add: di)
  have 3: "distinct (reported_causes (console t))"
    unfolding c by (simp add: reported_discard_warnings(2) record_causes_keys)
  have 4: "length (console t) = length (reported_causes (console t))"
    unfolding c by (simp add: reported_discard_warnings(2)) (simp add: discard_warnings_def)
  have "set (map fst ?ds) = (\<lambda>(k, i). ?names ! k) ` set cs"
    by (simp only: record_causes_cause_set) simp
  then have "set (reported_causes (console t)) = (\<lambda>(k, i). ?names ! k) ` set cs"
    unfolding c by (simp only: reported_discard_warnings(2))
  also have "\<dots> = fst ` ((\<lambda>(k, i). (?names ! k, str_nat i)) ` set cs)"
    by force
  finally have 5: "set (reported_causes (console t)) = fst ` set (reported_pairs (console t))"
    using pairs by simp
  from 1 2 3 4 5 show "set (reported_pairs (console t)) =
       {(cls (blocks self ! k), str_nat i) | k i.
          Ran k i True \<in> set (events t) \<and> Suc k < length (blocks self)} \<and>
     distinct (reported_pairs (console t)) \<and>
     distinct (reported_causes (console t)) \<and>
     length (console t) = length (reported_causes (console t)) \<and>
     set (reported_causes (console t)) = fst ` set (reported_pairs (console t))"
    by blast
qed

theorem batched_discard_report_witness:
  "(case Sequence_run abc_sequence (PyList (replicate 5 (Img new_image))) True False VNone True of
      Done s t \<Rightarrow>
        console t = [BatchDiscard ''B'' [''1'', ''3'']] \<and>
        distinct (reported_pairs (console t)) \<and>
        distinct (reported_causes (console t)) \<and>
        length (console t) = length (reported_causes (console t))
    | _ \<Rightarrow> False)"
proof (cases "Sequence_run abc_sequence (PyList (replicate 5 (Img new_image))) True False VNone True")
  case (Done s t)
  have v: "validate_images (normalise_images (PyList (replicate 5 (Img new_image)))) =
      Inr (replicate 5 (Img new_image))"
    by (simp add: validate_images_def normalise_images_def)
  have "discard_flag new_image = Inr False"
    by (simp add: discard_flag_def plain_getattribute_def new_image_def)
  then have ok: "\<forall>it \<in> set (replicate 5 (Img new_image)).
      \<forall>img. load_item (loader abc_sequence) VNone it = Inr img \<longrightarrow> discard_flag img \<noteq> Inr True"
    by (simp add: load_item_def)
  from batched_discard_report
         [of abc_sequence "PyList (replicate 5 (Img new_image))" True VNone True s t
             "replicate 5 (Img new_image)"] Done v ok
  have "distinct (reported_pairs (console t))" "distinct (reported_causes (console t))"
    "length (console t) = length (reported_causes (console t))"
    by blast+
  moreover from abc_scenario Done have "console t = [BatchDiscard ''B'' [''1'', ''3'']]"
    by simp
  ultimately show ?thesis using Done by simp
next
  case (Rejected e s t)
  with abc_scenario show ?thesis by simp
next
  case (Aborted e)
  with abc_scenario show ?thesis by simp
qed

text \<open>
  The claim as stated fails in two ways. An image that comes in discarded is skipped by
  block 0; \<open>self.blocks[b-1]\<close> is then \<open>self.blocks[-1]\<close>, and the warning names the
  last block of the chain, which was never run on the image. And the warnings are keyed
  by class name: two blocks of one class that each discard an image share one warning.
\<close>

theorem batched_discard_report_counterexample:
  "(case Sequence_run abc_sequence (PyList [Img new_image, Img discarded_image])
           True False VNone True of
      Done s t \<Rightarrow>
        console t = [BatchDiscard ''C'' [''1'']] \<and> blocks_run_on (events t) 1 = []
    | _ \<Rightarrow> False) \<and>
   (case Sequence_run aac_sequence (PyList [Img new_image, Img new_image])
           True False VNone True of
      Done s t \<Rightarrow>
        console t = [BatchDiscard ''A'' [''0'', ''1'']] \<and>
        blocks_run_on (events t) 0 = [0] \<and> blocks_run_on (events t) 1 = [0, 1]
    | _ \<Rightarrow> False)"
  by code_simp

subsection \<open>Attribute assignment on images\<close>

lemma ebind_Inr: "ebind m f = Inr y \<longleftrightarrow> (\<exists>x. m = Inr x \<and> f x = Inr y)"
  by (cases m) (simp_all add: ebind_def)














lemma last_image_store_blocks [simp]:
  "last_image (store_blocks bs s) = last_image s"
  by (simp add: store_blocks_def)





subsection \<open>Cutouts\<close>

lemma Image_init_eq:
  "Image_init d m c =
     Inr [(''data'', d), (''metadata'', if m \<noteq> VNone then m else VDict []),
          (''catalogs'', VDict []), (''_sources'', VList []), (''discard'', VBool False),
          (''origin'', VList [VInt 0, VInt 0]),
          (''computed'', if c \<noteq> VNone then c else VDict [])]"
  by (simp add: Image_init_def plain_setattr_def ebind_def plain_hasattr_def
                plain_getattribute_def Image_getattr_hook_def class_attribute_def
                Image_methods_def object_methods_def)

lemma new_image_init: "Image_init VNone VNone VNone = Inr new_image"
  by (simp add: Image_init_eq new_image_def)

lemma setattr_sources_fresh_image:
  assumes "Image_init d m c = Inr img"
  shows "plain_setattr img ''_sources'' v = Inr (AList.update ''_sources'' v img)"
proof -
  from assms have "map_of img ''_sources'' = Some (VList [])"
    by (auto simp: Image_init_eq)
  then have "plain_hasattr img ''_sources'' = Inr True"
    by (simp add: plain_hasattr_def plain_getattribute_def)
  then show ?thesis
    by (simp add: plain_setattr_def ebind_def)
qed

lemma metadata_setitem_keeps_sources:
  "metadata_setitem d k v = Inr d' \<Longrightarrow> map_of d' ''_sources'' = map_of d ''_sources''"
  by (auto simp: metadata_setitem_def update_conv'
           split: option.splits val.splits sum.splits)

lemma computed_store_keeps_sources:
  "computed_store d k v = Inr d' \<Longrightarrow> map_of d' ''_sources'' = map_of d ''_sources''"
  by (auto simp: computed_store_def update_conv' split: option.splits val.splits)

lemma object_setattr_wcs_keeps_sources:
  assumes "object_setattr lib d ''wcs'' v = Inr d'"
  shows "map_of d' ''_sources'' = map_of d ''_sources''"
proof (cases v)
  case (VObject w)
  with assms obtain h where
    h: "(case h of None \<Rightarrow> Inr d | Some hdr \<Rightarrow> metadata_setitem d ''wcs'' hdr) = Inr d'"
    by (auto simp: object_setattr_def ebind_Inr)
  then show ?thesis
    by (cases h) (auto dest: metadata_setitem_keeps_sources)
qed (use assms in \<open>simp_all add: object_setattr_def\<close>)

lemma setattr_wcs_keeps_sources:
  assumes "Image_setattr lib d ''wcs'' v = Inr d'"
  shows "map_of d' ''_sources'' = map_of d ''_sources''"
proof -
  from assms obtain has where
    "Image_hasattr lib d ''wcs'' = Inr has"
    and r: "(if has then object_setattr lib d ''wcs'' v
             else if ''computed'' \<in> fst ` set d then computed_store d ''wcs'' v
             else object_setattr lib d ''wcs'' v) = Inr d'"
    by (auto simp: Image_setattr_def ebind_Inr)
  from r consider "object_setattr lib d ''wcs'' v = Inr d'" | "computed_store d ''wcs'' v = Inr d'"
    by (auto split: if_splits)
  then show ?thesis
    by cases (auto dest: object_setattr_wcs_keeps_sources computed_store_keeps_sources)
qed

lemma recoordinated_sources:
  "map (recoordinate lib (cx, cy) (ny, nx))
     (filter (sources_in lib (cx, cy) (ny, nx)) (map (\<lambda>(c, a). VSource c a) srcs)) =
   map (\<lambda>((x, y), a). VSource (fadd lib (fsub lib x cx) (nx / 2),
                               fadd lib (fsub lib y cy) (ny / 2)) a)
     (filter (\<lambda>((x, y), a). \<bar>fsub lib x cx\<bar> < nx / 2 \<and> \<bar>fsub lib y cy\<bar> < ny / 2) srcs)"
  by (induction srcs) auto

text \<open>
  Claim C6, as the code has it. With \<open>shape\<close> given as (rows, columns) = \<open>(ny, nx)\<close>, the
  center as \<open>(cx, cy)\<close> and the sources of the image at coordinates \<open>(x, y)\<close>: when
  \<open>Image.cutout\<close> returns, the sources of the sub-image are those sources of the image
  with \<open>|x - cx| < nx / 2\<close> and \<open>|y - cy| < ny / 2\<close>, in their order, each with the new
  coordinate \<open>(x - cx + nx / 2, y - cy + ny / 2)\<close>, that is
  \<open>original - center + reversed(shape)/2\<close>; the other sources are left out. The
  subtraction and the addition are those of doubles.
\<close>

theorem cutout_recoordination:
  "plain_getattribute self ''_sources'' = Inr (VList (map (\<lambda>(c, a). VSource c a) srcs)) \<and>
   Image_cutout lib self (cx, cy) (ny, nx) wcs = Inr image' \<longrightarrow>
     Image_getattribute lib image' ''sources'' =
       Inr (VList
         (map (\<lambda>((x, y), a). VSource (fadd lib (fsub lib x cx) (nx / 2),
                                     fadd lib (fsub lib y cy) (ny / 2)) a)
            (filter (\<lambda>((x, y), a). \<bar>fsub lib x cx\<bar> < nx / 2 \<and> \<bar>fsub lib y cy\<bar> < ny / 2)
               srcs)))"
proof
  assume hyp: "plain_getattribute self ''_sources'' =
       Inr (VList (map (\<lambda>(c, a). VSource c a) srcs)) \<and>
     Image_cutout lib self (cx, cy) (ny, nx) wcs = Inr image'"
  let ?ss = "map (\<lambda>(c, a). VSource c a) srcs"
  let ?new = "map (\<lambda>((x, y), a). VSource (fadd lib (fsub lib x cx) (nx / 2),
                                     fadd lib (fsub lib y cy) (ny / 2)) a)
            (filter (\<lambda>((x, y), a). \<bar>fsub lib x cx\<bar> < nx / 2 \<and> \<bar>fsub lib y cy\<bar> < ny / 2)
               srcs)"
  from hyp obtain nd nw ns md cp img1 img2 where
    cs: "cutout_sources lib (VList ?ss) (cx, cy) (ny, nx) = Inr ns"
    and init: "Image_init nd md cp = Inr img1"
    and sa: "plain_setattr img1 ''_sources'' (VList ns) = Inr img2"
    and sw: "Image_setattr lib img2 ''wcs'' nw = Inr image'"
    by (auto simp: Image_cutout_def ebind_Inr)
  have all: "list_all is_source ?ss"
    by (induction srcs) auto
  from cs all have
    "ns = map (recoordinate lib (cx, cy) (ny, nx)) (filter (sources_in lib (cx, cy) (ny, nx)) ?ss)"
    by (auto simp: cutout_sources_def split: if_splits)
  then have ns: "ns = ?new"
    by (simp only: recoordinated_sources)
  from setattr_sources_fresh_image [OF init] sa
  have "img2 = AList.update ''_sources'' (VList ns) img1" by simp
  then have "map_of img2 ''_sources'' = Some (VList ns)"
    by (simp add: update_conv')
  with setattr_wcs_keeps_sources [OF sw] have "map_of image' ''_sources'' = Some (VList ns)"
    by simp
  then have "property_getter lib image' ''sources'' = Inr (VList ns)"
    by (simp add: property_getter_def plain_getattribute_def)
  with ns show "Image_getattribute lib image' ''sources'' = Inr (VList ?new)"
    by (simp add: Image_getattribute_def Image_properties_def)
qed

theorem cutout_recoordination_witness:
  "(case Image_cutout example_library star_image (10, 10) (2, 4) False of
      Inr img \<Rightarrow>
        Image_getattribute example_library img ''sources'' =
          Inr (VList [VSource (2, 1) [], VSource (7 / 2, 1) []]) \<and>
        plain_getattribute img ''data'' =
          Inr (VList (replicate 2 (VList (replicate 4 (VNum 0)))))
    | Inl e \<Rightarrow> False)"
proof (cases "Image_cutout example_library star_image (10, 10) (2, 4) False")
  case (Inr img)
  let ?srcs = "[((10, 10), []), ((23 / 2, 10), []), ((10, 23 / 2), [])] :: ((rat \<times> rat) \<times> pydict) list"
  have a: "plain_getattribute star_image ''_sources'' =
      Inr (VList (map (\<lambda>(c, a). VSource c a) ?srcs))"
    by (simp add: star_image_def plain_getattribute_def update_conv')
  have c: "map (\<lambda>((x, y), a). VSource (fadd example_library (fsub example_library x 10) (4 / 2),
                                     fadd example_library (fsub example_library y 10) (2 / 2)) a)
            (filter (\<lambda>((x, y), a). \<bar>fsub example_library x 10\<bar> < 4 / 2 \<and>
                                   \<bar>fsub example_library y 10\<bar> < 2 / 2) ?srcs) =
      [VSource (2, 1) [], VSource (7 / 2, 1) []]"
    by (simp add: example_library_def)
  have buf: "(case Image_cutout example_library star_image (10, 10) (2, 4) False of
      Inr img \<Rightarrow>
        plain_getattribute img ''data'' = Inr (VList (replicate 2 (VList (replicate 4 (VNum 0)))))
    | Inl e \<Rightarrow> False)"
    by code_simp
  from cutout_recoordination [of star_image ?srcs example_library 10 10 2 4 False img] a Inr
  have "Image_getattribute example_library img ''sources'' =
      Inr (VList
         (map (\<lambda>((x, y), a). VSource (fadd example_library (fsub example_library x 10) (4 / 2),
                                     fadd example_library (fsub example_library y 10) (2 / 2)) a)
            (filter (\<lambda>((x, y), a). \<bar>fsub example_library x 10\<bar> < 4 / 2 \<and>
                                   \<bar>fsub example_library y 10\<bar> < 2 / 2) ?srcs)))"
    by blast
  with c buf Inr show ?thesis by simp
next
  case (Inl e)
  have "(case Image_cutout example_library star_image (10, 10) (2, 4) False of
      Inr img \<Rightarrow> True | Inl e \<Rightarrow> False)"
    by code_simp
  with Inl show ?thesis by simp
qed

text \<open>
  The claim as stated fails on a window of 2 rows and 4 columns centred on a source at
  (10, 10): the code gives the source the coordinate (2, 1), and keeps the source at
  (11.5, 10); \<open>original - center + shape/2\<close> is (1, 2), and the source at (11.5, 10) is
  more than \<open>shape/2\<close> away from the center on the first axis.
\<close>

theorem cutout_recoordination_counterexample:
  "(case Image_cutout example_library star_image (10, 10) (2, 4) False of
      Inr img \<Rightarrow>
        Image_getattribute example_library img ''sources'' =
          Inr (VList [VSource (2, 1) [], VSource (7 / 2, 1) []])
    | Inl e \<Rightarrow> False) \<and>
   recoordinate_as_stated (10, 10) (2, 4) (10, 10) = (1, 2) \<and>
   \<not> \<bar>23 / 2 - 10\<bar> < (2::rat) / 2"
  by code_simp

end
